theory Spec2Isabelle
  imports Main "HOL-Library.Sublist" "HOL-Library.Char_ord" "HOL-Library.List_Lexorder"
    "HOL-Library.AList"
begin

section \<open>Stack snapshots and suffix elision\<close>

text \<open>
  A \<open>Stack\<close> is the Go slice \<open>[]uintptr\<close> of program counters, newest frame first.
  Program counters are only ever compared for equality, so they are natural numbers here.
  A \<open>*Stack\<close> that may be \<open>nil\<close> is a \<open>Stack option\<close>.
\<close>

type_synonym uintptr = nat
type_synonym Stack = "uintptr list"

text \<open>
  The loop of \<open>ElideSharedStackSuffix\<close>:
  \<^verbatim>\<open>for i, j = len(newSt)-1, len(prevSt)-1; i > 0 && j > 0; i, j = i-1, j-1 {
       if newSt[i] != prevSt[j] { break } }\<close>
  The function returns the value of \<open>i\<close> when the loop is left. Both indices stay inside
  their slices: they start at the last index and only decrease while positive.
\<close>

fun skipCommonSuffix :: "Stack \<Rightarrow> Stack \<Rightarrow> nat \<Rightarrow> nat \<Rightarrow> nat" where
  "skipCommonSuffix newSt prevSt i j =
     (if 0 < i \<and> 0 < j then
        (if newSt ! i \<noteq> prevSt ! j then i
         else skipCommonSuffix newSt prevSt (i - 1) (j - 1))
      else i)"

declare skipCommonSuffix.simps [simp del]

definition ElideSharedStackSuffix :: "Stack option \<Rightarrow> Stack option \<Rightarrow> Stack option \<times> bool" where
  "ElideSharedStackSuffix prevStack newStack =
     (case newStack of
        None \<Rightarrow> (newStack, False)
      | Some newSt \<Rightarrow>
          (case prevStack of
             None \<Rightarrow> (newStack, False)
           | Some prevSt \<Rightarrow>
               if length prevSt = 0 then (newStack, False)
               else if length newSt = 0 then (newStack, False)
               else
                 let i = skipCommonSuffix newSt prevSt (length newSt - 1) (length prevSt - 1);
                     i = (if i = 0 then 1 else i)
                 in (Some (take i newSt), i < length newSt - 1)))"

section \<open>Strings and formatting\<close>

text \<open>
  A Go string is a sequence of bytes, here a \<open>char list\<close>. \<open>strconv.Itoa\<close> prints a
  decimal number; Go's \<open>int\<close> is read as a mathematical integer (the numbers printed
  here are list positions and line numbers).
\<close>

definition digit :: "nat \<Rightarrow> char" where
  "digit d = ''0123456789'' ! d"

fun utoa :: "nat \<Rightarrow> string" where
  "utoa n = (if n < 10 then [digit n] else utoa (n div 10) @ [digit (n mod 10)])"

declare utoa.simps [simp del]

definition Itoa :: "int \<Rightarrow> string" where
  "Itoa i = (if i < 0 then CHR ''-'' # utoa (nat (- i)) else utoa (nat i))"

text \<open>\<open>strings.HasPrefix\<close>.\<close>

definition HasPrefix :: "string \<Rightarrow> string \<Rightarrow> bool" where
  "HasPrefix s p = prefix p s"

text \<open>
  \<open>strings.ReplaceAll\<close> for a non-empty pattern: non-overlapping matches are replaced
  from left to right. Every call in this program passes a non-empty literal pattern; the
  empty pattern is left alone here.
\<close>

function ReplaceAll :: "string \<Rightarrow> string \<Rightarrow> string \<Rightarrow> string" where
  "ReplaceAll s old new =
     (if old = [] \<or> s = [] then s
      else if prefix old s then new @ ReplaceAll (drop (length old) s) old new
      else hd s # ReplaceAll (tl s) old new)"
  by pat_completeness auto
termination
  by (relation "measure (\<lambda>(s, old, new). length s)") (auto simp: prefix_def)

declare ReplaceAll.simps [simp del]

section \<open>Error values\<close>

text \<open>
  A Go \<open>error\<close> is an interface value: \<open>nil\<close>, or a value of some concrete type. The
  concrete types are those of this package and of its tests:
  \<^item> \<open>*errors.errorString\<close>, made by \<open>New\<close> (and by \<open>fmt.Errorf\<close> without \<open>%w\<close>);
  \<^item> \<open>*fmt.wrapError\<close>, made by \<open>fmt.Errorf\<close> with \<open>%w\<close>: a message and the wrapped error;
  \<^item> a value type with an \<open>Error\<close> method and nothing else (\<open>myError\<close>, \<open>otherError\<close>,
    \<open>ErrMyError\<close> in the tests and the example), given by its type name and its message;
  \<^item> a pointer type with an \<open>Error\<close> and a \<open>Cause() error\<close> method and no \<open>Unwrap\<close>
    method, as the wrapping types of \<open>github.com/pkg/errors\<close> were before they had
    \<open>Unwrap\<close>; the package names that library as one it is compatible with and follows
    \<open>Cause()\<close> in its chain walks;
  \<^item> \<open>*wrapper\<close>, \<open>*withStack\<close> and \<open>*withFields\<close> of this package.
  A pointer is an address; two pointers are equal when their addresses are. Every node
  that the program reaches through a pointer carries its address. Nodes are never changed
  after they are built, so a node can hold its children directly. An \<open>error\<close> that may be
  \<open>nil\<close> is an \<open>error option\<close>.
\<close>

type_synonym addr = nat

datatype any = AnyNil | AnyString string | AnyInt int | AnyBool bool

text \<open>
  \<open>Fields\<close> is \<open>map[string]any\<close>: an association list with one entry for each key.
  Reading a key that is absent gives the zero value \<open>nil\<close>.
\<close>

type_synonym Fields = "(string \<times> any) list"

datatype error =
    errorString addr string
  | wrapError addr string error
  | valueError string string
  | causeError addr string error
  | wrapper addr error error
  | withStack addr error Stack bool
  | withFields addr Fields error Stack bool

text \<open>
  The fields of \<open>wrapper a front back\<close> are \<open>front\<close> and \<open>back\<close>; those of
  \<open>withStack a cause st hasSkippedFrames\<close> and
  \<open>withFields a fields cause st hasSkippedFrames\<close> are as in the structs, with the
  embedded \<open>*Stack\<close> (never \<open>nil\<close> in a node built by this package) as the stack itself.
\<close>

datatype gotype =
    T_errorString | T_wrapError | T_value string | T_causeError | T_wrapper | T_withStack
  | T_withFields

fun goType :: "error \<Rightarrow> gotype" where
  "goType (errorString a s) = T_errorString"
| "goType (wrapError a msg e) = T_wrapError"
| "goType (valueError T s) = T_value T"
| "goType (causeError a msg cause) = T_causeError"
| "goType (wrapper a front back) = T_wrapper"
| "goType (withStack a cause st sk) = T_withStack"
| "goType (withFields a fields cause st sk) = T_withFields"

text \<open>What \<open>%T\<close> prints.\<close>

fun typeName :: "gotype \<Rightarrow> string" where
  "typeName T_errorString = ''*errors.errorString''"
| "typeName T_wrapError = ''*fmt.wrapError''"
| "typeName (T_value T) = T"
| "typeName T_causeError = ''*errors.withMessage''"
| "typeName T_wrapper = ''*errors.wrapper''"
| "typeName T_withStack = ''*errors.withStack''"
| "typeName T_withFields = ''*errors.withFields''"

text \<open>
  The value that \<open>==\<close> compares once the dynamic types agree: the address of a
  pointer, the contents of a value type.
\<close>

fun identity :: "error \<Rightarrow> addr + string" where
  "identity (errorString a s) = Inl a"
| "identity (wrapError a msg e) = Inl a"
| "identity (valueError T s) = Inr s"
| "identity (causeError a msg cause) = Inl a"
| "identity (wrapper a front back) = Inl a"
| "identity (withStack a cause st sk) = Inl a"
| "identity (withFields a fields cause st sk) = Inl a"

text \<open>
  \<open>equal(err, reference)\<close> is \<open>err == reference\<close> on interface values: the same
  dynamic type and the same value. Every type above is comparable, so
  \<open>reflectlite.TypeOf(target).Comparable()\<close> is true and the comparison cannot panic.
\<close>

definition equal_errors :: "error \<Rightarrow> error \<Rightarrow> bool" where
  "equal_errors err reference = (goType err = goType reference \<and> identity err = identity reference)"

definition Comparable :: "error \<Rightarrow> bool" where
  "Comparable target = True"

subsection \<open>Messages\<close>

text \<open>\<open>%v\<close> of a field value.\<close>

fun format_v :: "any \<Rightarrow> string" where
  "format_v AnyNil = ''<nil>''"
| "format_v (AnyString s) = s"
| "format_v (AnyInt i) = Itoa i"
| "format_v (AnyBool b) = (if b then ''true'' else ''false'')"

text \<open>
  The loop of \<open>formatFields\<close> over the sorted keys; \<open>i\<close> is the loop index.
  \<^verbatim>\<open>v := fields[k]; eq := empty; var val any = empty
  if i > 0 { sb.WriteString(",") }
  if v != nil { eq = ":"; val = v }
  sb.WriteString(fmt.Sprintf("%s%s%v", k, eq, val))\<close>
\<close>

fun formatKeys :: "Fields \<Rightarrow> nat \<Rightarrow> string list \<Rightarrow> string" where
  "formatKeys fields i [] = ''''"
| "formatKeys fields i (k # keys) =
     (let v = (case map_of fields k of Some v \<Rightarrow> v | None \<Rightarrow> AnyNil)
      in (if 0 < i then '','' else '''') @
         (if v \<noteq> AnyNil then k @ '':'' @ format_v v else k) @
         formatKeys fields (i + 1) keys)"

definition formatFields :: "Fields \<Rightarrow> string" where
  "formatFields fields =
     (if length fields = 0 then ''''
      else ''fields:['' @ formatKeys fields 0 (sort (map fst fields)) @ ''],'')"

text \<open>
  The \<open>Error\<close> method of each type. \<open>wrapper.Error\<close> joins the two messages with a
  colon when both are non-empty; \<open>withStack.Error\<close> is the message of the cause;
  \<open>withFields.Error\<close> puts the node's own fields in front of it.
\<close>

fun Error :: "error \<Rightarrow> string" where
  "Error (errorString a s) = s"
| "Error (wrapError a msg e) = msg"
| "Error (valueError T s) = s"
| "Error (causeError a msg cause) = msg"
| "Error (wrapper a front back) =
     (let front = Error front; back = Error back
      in if front = '''' then back
         else if back = '''' then front
         else front @ '': '' @ back)"
| "Error (withStack a cause st sk) = Error cause"
| "Error (withFields a fields cause st sk) = formatFields fields @ Error cause"

subsection \<open>Allocation\<close>

text \<open>
  \<open>&T{...}\<close> allocates: the new pointer differs from every pointer that exists. The
  state that the program threads is the next free address; a function that may allocate
  takes it and returns it.
\<close>

type_synonym alloc = addr

definition New :: "string \<Rightarrow> alloc \<Rightarrow> error option \<times> alloc" where
  "New text n = (Some (errorString n text), Suc n)"

definition With :: "error option \<Rightarrow> error option \<Rightarrow> alloc \<Rightarrow> error option \<times> alloc" where
  "With back front n =
     (case back of
        None \<Rightarrow> (None, n)
      | Some b \<Rightarrow>
          (case front of
             None \<Rightarrow> (back, n)
           | Some f \<Rightarrow> (Some (wrapper n f b), Suc n)))"

definition Wrap :: "error option \<Rightarrow> string \<Rightarrow> alloc \<Rightarrow> error option \<times> alloc" where
  "Wrap err msg n = (case New msg n of (front, n1) \<Rightarrow> With err front n1)"

subsection \<open>Unwrapping\<close>

text \<open>
  \<open>errors_Unwrap\<close> is \<open>errors.Unwrap\<close> of the standard library: it calls the
  \<open>Unwrap() error\<close> method of the value if its type has one, and returns \<open>nil\<close>
  otherwise. \<open>wrapper_Unwrap front back\<close> is the method \<open>(*wrapper).Unwrap\<close> on a node
  with these two fields:
  \<^verbatim>\<open>if err := errors.Unwrap(s.front); err != nil {
      return &wrapper{front: err, back: s.back} }
  return s.back\<close>
\<close>

fun errors_Unwrap :: "error \<Rightarrow> alloc \<Rightarrow> error option \<times> alloc"
  and wrapper_Unwrap :: "error \<Rightarrow> error \<Rightarrow> alloc \<Rightarrow> error option \<times> alloc" where
  "errors_Unwrap (errorString a s) n = (None, n)"
| "errors_Unwrap (wrapError a msg e) n = (Some e, n)"
| "errors_Unwrap (valueError T s) n = (None, n)"
| "errors_Unwrap (causeError a msg cause) n = (None, n)"
| "errors_Unwrap (wrapper a front back) n = wrapper_Unwrap front back n"
| "errors_Unwrap (withStack a cause st sk) n = (Some cause, n)"
| "errors_Unwrap (withFields a fields cause st sk) n = (Some cause, n)"
| "wrapper_Unwrap front back n =
     (case errors_Unwrap front n of
        (Some err, n1) \<Rightarrow> (Some (wrapper n1 err back), Suc n1)
      | (None, n1) \<Rightarrow> (Some back, n1))"

text \<open>
  Modelled from the spec: \<open>UnwrapOnce\<close>, which the package calls in every chain walk, is
  not among the source files. The spec calls it the single-step unwrap by which the chain
  is walked from the outermost value to the root: one step to the cause of an annotation
  node, one \<open>Unwrap\<close> step of a combinator node, and absent at the end of the chain. The
  package says of its walks that they also recurse through causes with \<open>Cause()\<close>: a
  value with a \<open>Cause\<close> method is unwrapped by it, any other value as \<open>errors.Unwrap\<close>
  does. (\<open>*withStack\<close> and \<open>*withFields\<close> return the same cause from both methods.)
\<close>

fun UnwrapOnce :: "error \<Rightarrow> alloc \<Rightarrow> error option \<times> alloc" where
  "UnwrapOnce (causeError a msg cause) n = (Some cause, n)"
| "UnwrapOnce (withStack a cause st sk) n = (Some cause, n)"
| "UnwrapOnce (withFields a fs cause st sk) n = (Some cause, n)"
| "UnwrapOnce err n = errors_Unwrap err n"

lemma errors_Unwrap_size:
  "errors_Unwrap e n = (Some e', n') \<Longrightarrow> size e' < size e"
proof (induction e arbitrary: e' n' n)
  case (wrapper a f b)
  show ?case
  proof (cases "errors_Unwrap f n")
    case (Pair r n1)
    show ?thesis
    proof (cases r)
      case None
      with Pair wrapper.prems show ?thesis by auto
    next
      case (Some err)
      with Pair wrapper.IH(1) have "size err < size f" by simp
      with Pair Some wrapper.prems show ?thesis by auto
    qed
  qed
qed auto

lemma UnwrapOnce_size: "UnwrapOnce e n = (Some e', n') \<Longrightarrow> size e' < size e"
  by (cases e) (auto dest: errors_Unwrap_size simp del: errors_Unwrap.simps)

section \<open>Walking a chain\<close>

text \<open>
  \<open>getEntries\<close> walks the chain from \<open>err\<close> with \<open>UnwrapOnce\<close> and puts each value
  in front of those seen before:
  \<^verbatim>\<open>for err != nil { entries = append([]error{err}, entries...); err = UnwrapOnce(err) }\<close>
\<close>

function getEntries_loop :: "error option \<Rightarrow> error list \<Rightarrow> alloc \<Rightarrow> error list \<times> alloc" where
  "getEntries_loop None entries n = (entries, n)"
| "getEntries_loop (Some err) entries n =
     (case UnwrapOnce err n of (next, n1) \<Rightarrow> getEntries_loop next (err # entries) n1)"
  by pat_completeness auto
termination
  by (relation "measure (\<lambda>(err, entries, n). case err of None \<Rightarrow> 0 | Some e \<Rightarrow> Suc (size e))")
     (auto dest: UnwrapOnce_size [OF sym] UnwrapOnce_size split: option.splits prod.splits)

definition getEntries :: "error option \<Rightarrow> alloc \<Rightarrow> error list \<times> alloc" where
  "getEntries err n = getEntries_loop err [] n"

text \<open>
  \<open>getLastStack\<close> returns the stack of the first \<open>*withStack\<close> or \<open>*withFields\<close>
  on the chain, \<open>nil\<close> if there is none.
\<close>

function getLastStack :: "error option \<Rightarrow> alloc \<Rightarrow> Stack option \<times> alloc" where
  "getLastStack None n = (None, n)"
| "getLastStack (Some (withStack a cause st sk)) n = (Some st, n)"
| "getLastStack (Some (withFields a fields cause st sk)) n = (Some st, n)"
| "getLastStack (Some (errorString a s)) n =
     (case UnwrapOnce (errorString a s) n of (next, n1) \<Rightarrow> getLastStack next n1)"
| "getLastStack (Some (wrapError a msg e)) n =
     (case UnwrapOnce (wrapError a msg e) n of (next, n1) \<Rightarrow> getLastStack next n1)"
| "getLastStack (Some (valueError T s)) n =
     (case UnwrapOnce (valueError T s) n of (next, n1) \<Rightarrow> getLastStack next n1)"
| "getLastStack (Some (causeError a msg cause)) n =
     (case UnwrapOnce (causeError a msg cause) n of (next, n1) \<Rightarrow> getLastStack next n1)"
| "getLastStack (Some (wrapper a front back)) n =
     (case UnwrapOnce (wrapper a front back) n of (next, n1) \<Rightarrow> getLastStack next n1)"
  by pat_completeness auto
termination
  by (relation "measure (\<lambda>(err, n). case err of None \<Rightarrow> 0 | Some e \<Rightarrow> Suc (size e))")
     (auto dest: UnwrapOnce_size [OF sym] UnwrapOnce_size simp del: UnwrapOnce.simps
        split: option.splits prod.splits)

section \<open>Annotation with a stack\<close>

text \<open>
  What the Go runtime answers is a parameter: \<open>rt_Callers rt skip\<close> is the whole list of
  program counters that \<open>runtime.Callers(skip, pcs)\<close> reports once \<open>pcs\<close> is large
  enough (\<open>captureStacktrace\<close> doubles the buffer until it is), and
  \<open>rt_CallersFrames rt pcs\<close> is the sequence of frames that \<open>runtime.CallersFrames\<close>
  resolves them to.
\<close>

record runtime_Frame =
  rf_Function :: string
  rf_File :: string
  rf_Line :: int

record runtime =
  rt_Callers :: "int \<Rightarrow> Stack"
  rt_CallersFrames :: "Stack \<Rightarrow> runtime_Frame list"

definition captureStacktrace :: "runtime \<Rightarrow> int \<Rightarrow> Stack" where
  "captureStacktrace rt skip = (let selfSkip = 2 in rt_Callers rt (skip + selfSkip))"

definition Callers :: "runtime \<Rightarrow> int \<Rightarrow> Stack option" where
  "Callers rt skip = Some (captureStacktrace rt skip)"

text \<open>
  \<open>WithStackDepth\<close>. \<open>ElideSharedStackSuffix\<close> returns a pointer that is not \<open>nil\<close>
  when the new stack is not, so the node always gets a stack.
\<close>

definition WithStackDepth :: "runtime \<Rightarrow> error option \<Rightarrow> int \<Rightarrow> alloc \<Rightarrow> error option \<times> alloc" where
  "WithStackDepth rt err depth n =
     (case err of
        None \<Rightarrow> (None, n)
      | Some e \<Rightarrow>
          (let st = Callers rt (depth + 2) in
           case getLastStack err n of (prevStack, n1) \<Rightarrow>
           case ElideSharedStackSuffix prevStack st of (st, hasSkippedFrames) \<Rightarrow>
             (Some (withStack n1 e (case st of Some s \<Rightarrow> s | None \<Rightarrow> []) hasSkippedFrames),
              Suc n1)))"

definition WithStack :: "runtime \<Rightarrow> error option \<Rightarrow> alloc \<Rightarrow> error option \<times> alloc" where
  "WithStack rt err n = WithStackDepth rt err 1 n"

text \<open>
  \<open>WrapWithFieldsAndDepth\<close>; the map \<open>fields\<close> is \<open>None\<close> for the \<open>nil\<close> map.
\<close>

definition WrapWithFieldsAndDepth ::
  "runtime \<Rightarrow> error option \<Rightarrow> Fields option \<Rightarrow> int \<Rightarrow> alloc \<Rightarrow> error option \<times> alloc" where
  "WrapWithFieldsAndDepth rt err flds depth n =
     (case err of
        None \<Rightarrow> (None, n)
      | Some e \<Rightarrow>
          (case flds of
             None \<Rightarrow> WithStackDepth rt err (depth + 1) n
           | Some fs \<Rightarrow>
               (let st = Callers rt (depth + 2) in
                case getLastStack err n of (prevStack, n1) \<Rightarrow>
                case ElideSharedStackSuffix prevStack st of (st, hasSkippedFrames) \<Rightarrow>
                  (Some (withFields n1 fs e (case st of Some s \<Rightarrow> s | None \<Rightarrow> [])
                           hasSkippedFrames),
                   Suc n1))))"

definition WrapWithFields ::
  "runtime \<Rightarrow> error option \<Rightarrow> Fields option \<Rightarrow> alloc \<Rightarrow> error option \<times> alloc" where
  "WrapWithFields rt err flds n = WrapWithFieldsAndDepth rt err flds 1 n"

section \<open>Identity and type queries\<close>

text \<open>
  The types with an \<open>Is(error) bool\<close> method, and with an \<open>As(any) bool\<close> method, are
  \<open>*wrapper\<close>, \<open>*withStack\<close> and \<open>*withFields\<close>.
\<close>

fun hasIs :: "error \<Rightarrow> bool" where
  "hasIs (wrapper a front back) = True"
| "hasIs (withStack a cause st sk) = True"
| "hasIs (withFields a fs cause st sk) = True"
| "hasIs e = False"

fun hasAs :: "error \<Rightarrow> bool" where
  "hasAs (wrapper a front back) = True"
| "hasAs (withStack a cause st sk) = True"
| "hasAs (withFields a fs cause st sk) = True"
| "hasAs e = False"

text \<open>
  Three functions that call each other, all with a target that is not \<open>nil\<close> (the
  callers test for \<open>nil\<close> first):
  \<^item> \<open>Is_method x target\<close> is \<open>x.Is(target)\<close> for a value whose type has the method:
    \<open>(*wrapper).Is\<close>, \<open>(*withStack).Is\<close>, \<open>(*withFields).Is\<close>;
  \<^item> \<open>errors_Is err target\<close> is \<open>errors.Is\<close> of the standard library on an error that
    is not \<open>nil\<close>: compare, ask the \<open>Is\<close> method, unwrap with \<open>Unwrap\<close>, and again;
  \<^item> \<open>wrapper_Is_loop\<close> is the loop at the end of \<open>(*wrapper).Is\<close>:
    \<^verbatim>\<open>for inner := s.Unwrap(); inner != nil; inner = UnwrapOnce(inner) {
        if errors.Is(inner, target) { return true } }\<close>
\<close>

function Is_method :: "error \<Rightarrow> error \<Rightarrow> alloc \<Rightarrow> bool \<times> alloc"
  and errors_Is :: "error \<Rightarrow> error \<Rightarrow> alloc \<Rightarrow> bool \<times> alloc"
  and wrapper_Is_loop :: "error option \<Rightarrow> error \<Rightarrow> alloc \<Rightarrow> bool \<times> alloc" where
  "Is_method (wrapper a front back) target n =
     (if Comparable target \<and> equal_errors front target then (True, n)
      else case (if hasIs front then Is_method front target n else (False, n)) of
        (True, n1) \<Rightarrow> (True, n1)
      | (False, n1) \<Rightarrow>
          (case (if hasIs back then Is_method back target n1 else (False, n1)) of
             (True, n2) \<Rightarrow> (True, n2)
           | (False, n2) \<Rightarrow>
               (case wrapper_Unwrap front back n2 of
                  (inner, n3) \<Rightarrow> wrapper_Is_loop inner target n3)))"
| "Is_method (withStack a cause st sk) target n =
     (if Comparable target \<and> equal_errors cause target then (True, n)
      else if hasIs cause then Is_method cause target n
      else (False, n))"
| "Is_method (withFields a fs cause st sk) target n =
     (if Comparable target \<and> equal_errors cause target then (True, n)
      else if hasIs cause then Is_method cause target n
      else (False, n))"
| "Is_method (errorString a s) target n = (False, n)"
| "Is_method (wrapError a msg e) target n = (False, n)"
| "Is_method (valueError T s) target n = (False, n)"
| "Is_method (causeError a msg cause) target n = (False, n)"
| "errors_Is err target n =
     (if Comparable target \<and> equal_errors err target then (True, n)
      else case (if hasIs err then Is_method err target n else (False, n)) of
        (True, n1) \<Rightarrow> (True, n1)
      | (False, n1) \<Rightarrow>
          (case errors_Unwrap err n1 of
             (None, n2) \<Rightarrow> (False, n2)
           | (Some err', n2) \<Rightarrow> errors_Is err' target n2))"
| "wrapper_Is_loop None target n = (False, n)"
| "wrapper_Is_loop (Some inner) target n =
     (case errors_Is inner target n of
        (True, n1) \<Rightarrow> (True, n1)
      | (False, n1) \<Rightarrow>
          (case UnwrapOnce inner n1 of (next, n2) \<Rightarrow> wrapper_Is_loop next target n2))"
  by pat_completeness auto
termination
  by (relation "measure (\<lambda>x. case x of
          Inl (e, t, n) \<Rightarrow> 3 * size e
        | Inr (Inl (e, t, n)) \<Rightarrow> 3 * size e + 1
        | Inr (Inr (eo, t, n)) \<Rightarrow> (case eo of None \<Rightarrow> 0 | Some e \<Rightarrow> 3 * size e + 2))")
     (auto dest: errors_Unwrap_size UnwrapOnce_size errors_Unwrap_size [OF sym]
        UnwrapOnce_size [OF sym] split: option.splits prod.splits if_splits)

declare errors_Is.simps [simp del]

text \<open>
  \<open>Is\<close> of this package: a \<open>nil\<close> reference matches a \<open>nil\<close> error only; otherwise
  each value of the chain is compared with the reference and asked through its \<open>Is\<close>
  method.
\<close>

definition tryDelegateToIsMethod :: "error \<Rightarrow> error \<Rightarrow> alloc \<Rightarrow> bool \<times> alloc" where
  "tryDelegateToIsMethod err reference n =
     (if hasIs err then Is_method err reference n else (False, n))"

function Is_loop :: "error option \<Rightarrow> error \<Rightarrow> alloc \<Rightarrow> bool \<times> alloc" where
  "Is_loop None reference n = (False, n)"
| "Is_loop (Some c) reference n =
     (if equal_errors c reference then (True, n)
      else case tryDelegateToIsMethod c reference n of
        (True, n1) \<Rightarrow> (True, n1)
      | (False, n1) \<Rightarrow>
          (case UnwrapOnce c n1 of (next, n2) \<Rightarrow> Is_loop next reference n2))"
  by pat_completeness auto
termination
  by (relation "measure (\<lambda>(err, r, n). case err of None \<Rightarrow> 0 | Some e \<Rightarrow> Suc (size e))")
     (auto dest: UnwrapOnce_size [OF sym] UnwrapOnce_size split: option.splits prod.splits)

definition Is :: "error option \<Rightarrow> error option \<Rightarrow> alloc \<Rightarrow> bool \<times> alloc" where
  "Is err reference n =
     (case reference of
        None \<Rightarrow> (err = None, n)
      | Some r \<Rightarrow> Is_loop err r n)"

text \<open>
  The type query. A target is a pointer to a variable; its element type is the type asked
  for. The checks that \<open>As\<close> makes on the target before it walks the chain end in a
  panic; the target of a method call inside the walk has passed them already. The
  element types that occur are concrete types, and a value is assignable to a concrete
  type when it has that type. A positive answer is the value stored in the target.
\<close>

datatype asTarget =
    TargetNil | TargetNotPointer | TargetNilPointer | TargetNotErrorType | TargetPtr gotype

datatype panic = TargetCannotBeNil | TargetMustBeNonNilPointer | TargetMustBeInterfaceOrError

definition AssignableTo :: "error \<Rightarrow> gotype \<Rightarrow> bool" where
  "AssignableTo err targetType = (goType err = targetType)"

text \<open>
  As for \<open>Is\<close>, three functions that call each other: the \<open>As\<close> methods of the three
  types, \<open>errors.As\<close> of the standard library on an error that is not \<open>nil\<close>, and the
  loop at the end of \<open>(*wrapper).As\<close>.
\<close>

function As_method :: "error \<Rightarrow> gotype \<Rightarrow> alloc \<Rightarrow> error option \<times> alloc"
  and errors_As :: "error \<Rightarrow> gotype \<Rightarrow> alloc \<Rightarrow> error option \<times> alloc"
  and wrapper_As_loop :: "error option \<Rightarrow> gotype \<Rightarrow> alloc \<Rightarrow> error option \<times> alloc" where
  "As_method (wrapper a front back) targetType n =
     (if AssignableTo front targetType then (Some front, n)
      else case (if hasAs front then As_method front targetType n else (None, n)) of
        (Some v, n1) \<Rightarrow> (Some v, n1)
      | (None, n1) \<Rightarrow>
          (case wrapper_Unwrap front back n1 of
             (inner, n2) \<Rightarrow> wrapper_As_loop inner targetType n2))"
| "As_method (withStack a cause st sk) targetType n =
     (if AssignableTo cause targetType then (Some cause, n)
      else if hasAs cause then As_method cause targetType n
      else (None, n))"
| "As_method (withFields a fs cause st sk) targetType n =
     (if AssignableTo cause targetType then (Some cause, n)
      else if hasAs cause then As_method cause targetType n
      else (None, n))"
| "As_method (errorString a s) targetType n = (None, n)"
| "As_method (wrapError a msg e) targetType n = (None, n)"
| "As_method (valueError T s) targetType n = (None, n)"
| "As_method (causeError a msg cause) targetType n = (None, n)"
| "errors_As err targetType n =
     (if AssignableTo err targetType then (Some err, n)
      else case (if hasAs err then As_method err targetType n else (None, n)) of
        (Some v, n1) \<Rightarrow> (Some v, n1)
      | (None, n1) \<Rightarrow>
          (case errors_Unwrap err n1 of
             (None, n2) \<Rightarrow> (None, n2)
           | (Some err', n2) \<Rightarrow> errors_As err' targetType n2))"
| "wrapper_As_loop None targetType n = (None, n)"
| "wrapper_As_loop (Some inner) targetType n =
     (case errors_As inner targetType n of
        (Some v, n1) \<Rightarrow> (Some v, n1)
      | (None, n1) \<Rightarrow>
          (case UnwrapOnce inner n1 of (next, n2) \<Rightarrow> wrapper_As_loop next targetType n2))"
  by pat_completeness auto
termination
  by (relation "measure (\<lambda>x. case x of
          Inl (e, t, n) \<Rightarrow> 3 * size e
        | Inr (Inl (e, t, n)) \<Rightarrow> 3 * size e + 1
        | Inr (Inr (eo, t, n)) \<Rightarrow> (case eo of None \<Rightarrow> 0 | Some e \<Rightarrow> 3 * size e + 2))")
     (auto dest: errors_Unwrap_size UnwrapOnce_size errors_Unwrap_size [OF sym]
        UnwrapOnce_size [OF sym] split: option.splits prod.splits if_splits)

declare errors_As.simps [simp del]

text \<open>
  \<open>As\<close> of this package. \<open>As_loop\<close> is its loop over the chain, entered once the
  target has passed the checks.
\<close>

function As_loop :: "error option \<Rightarrow> gotype \<Rightarrow> alloc \<Rightarrow> error option \<times> alloc" where
  "As_loop None targetType n = (None, n)"
| "As_loop (Some c) targetType n =
     (if AssignableTo c targetType then (Some c, n)
      else case (if hasAs c then As_method c targetType n else (None, n)) of
        (Some v, n1) \<Rightarrow> (Some v, n1)
      | (None, n1) \<Rightarrow>
          (case UnwrapOnce c n1 of (next, n2) \<Rightarrow> As_loop next targetType n2))"
  by pat_completeness auto
termination
  by (relation "measure (\<lambda>(err, t, n). case err of None \<Rightarrow> 0 | Some e \<Rightarrow> Suc (size e))")
     (auto dest: UnwrapOnce_size [OF sym] UnwrapOnce_size split: option.splits prod.splits)

definition As :: "error option \<Rightarrow> asTarget \<Rightarrow> alloc \<Rightarrow> panic + (error option \<times> alloc)" where
  "As err target n =
     (case target of
        TargetNil \<Rightarrow> Inl TargetCannotBeNil
      | TargetNotPointer \<Rightarrow> Inl TargetMustBeNonNilPointer
      | TargetNilPointer \<Rightarrow> Inl TargetMustBeNonNilPointer
      | TargetNotErrorType \<Rightarrow> Inl TargetMustBeInterfaceOrError
      | TargetPtr targetType \<Rightarrow> Inr (As_loop err targetType n))"

subsection \<open>Fields\<close>

text \<open>
  \<open>for k, v := range fields { result[k] = v }\<close>: every entry of \<open>fields\<close> is stored
  in \<open>result\<close>.
\<close>

definition assignAll :: "Fields \<Rightarrow> Fields \<Rightarrow> Fields" where
  "assignAll result fs = foldl (\<lambda>r (k, v). AList.update k v r) result fs"

text \<open>
  The first loop of \<open>getFields\<close> over the entries. The target \<open>&tmpErr\<close> of each
  \<open>As\<close> call is a pointer to a variable of type \<open>*withFields\<close>, so the call passes the
  checks of \<open>As\<close> and a value found is a \<open>*withFields\<close>.
\<close>

fun getFields_loop :: "error list \<Rightarrow> Fields \<Rightarrow> alloc \<Rightarrow> Fields \<times> alloc" where
  "getFields_loop [] result n = (result, n)"
| "getFields_loop (err # entries) result n =
     (case As_loop (Some err) T_withFields n of
        (Some (withFields a fs cause st sk), n1) \<Rightarrow>
          getFields_loop entries (assignAll result fs) n1
      | (_, n1) \<Rightarrow> getFields_loop entries result n1)"

text \<open>\<open>(*withFields).getFields\<close>; the receiver is a \<open>*withFields\<close>.\<close>

fun getFields :: "error \<Rightarrow> alloc \<Rightarrow> Fields \<times> alloc" where
  "getFields (withFields a fs cause st sk) n =
     (case getEntries (Some (withFields a fs cause st sk)) n of (entries, n1) \<Rightarrow>
      case getFields_loop entries [] n1 of (result, n2) \<Rightarrow>
        (assignAll result fs, n2))"
| "getFields w n = ([], n)"

definition GetFields :: "error option \<Rightarrow> alloc \<Rightarrow> Fields \<times> alloc" where
  "GetFields err n =
     (case As_loop err T_withFields n of
        (Some tmpErr, n1) \<Rightarrow> getFields tmpErr n1
      | (None, n1) \<Rightarrow> ([], n1))"

section \<open>Rendering\<close>

text \<open>
  \<open>strings.TrimSpace\<close> removes the leading and the trailing white space of a string,
  as \<open>unicode.IsSpace\<close> defines it. On bytes, a white-space character is one of these
  UTF-8 sequences: the six ASCII ones, U+0085, U+00A0, U+1680, U+2000 to U+200A, U+2028,
  U+2029, U+202F, U+205F and U+3000.
\<close>

definition spaceSeqs :: "string list" where
  "spaceSeqs =
    [[CHR 0x09], [CHR 0x0A], [CHR 0x0B], [CHR 0x0C], [CHR 0x0D], [CHR 0x20],
     [CHR 0xC2, CHR 0x85], [CHR 0xC2, CHR 0xA0], [CHR 0xE1, CHR 0x9A, CHR 0x80],
     [CHR 0xE2, CHR 0x80, CHR 0x80], [CHR 0xE2, CHR 0x80, CHR 0x81],
     [CHR 0xE2, CHR 0x80, CHR 0x82], [CHR 0xE2, CHR 0x80, CHR 0x83],
     [CHR 0xE2, CHR 0x80, CHR 0x84], [CHR 0xE2, CHR 0x80, CHR 0x85],
     [CHR 0xE2, CHR 0x80, CHR 0x86], [CHR 0xE2, CHR 0x80, CHR 0x87],
     [CHR 0xE2, CHR 0x80, CHR 0x88], [CHR 0xE2, CHR 0x80, CHR 0x89],
     [CHR 0xE2, CHR 0x80, CHR 0x8A], [CHR 0xE2, CHR 0x80, CHR 0xA8],
     [CHR 0xE2, CHR 0x80, CHR 0xA9], [CHR 0xE2, CHR 0x80, CHR 0xAF],
     [CHR 0xE2, CHR 0x81, CHR 0x9F], [CHR 0xE3, CHR 0x80, CHR 0x80]]"

lemma spaceSeqs_nonempty: "p \<in> set spaceSeqs \<Longrightarrow> 0 < length p"
  unfolding spaceSeqs_def by auto

function TrimLeft :: "string \<Rightarrow> string" where
  "TrimLeft s =
     (case find (\<lambda>p. prefix p s) spaceSeqs of
        None \<Rightarrow> s
      | Some p \<Rightarrow> TrimLeft (drop (length p) s))"
  by pat_completeness auto
termination
proof (relation "measure length")
  fix s p
  assume "find (\<lambda>p. prefix p s) spaceSeqs = Some p"
  then have "p \<in> set spaceSeqs" and "prefix p s"
    by (auto simp: find_Some_iff)
  then have "0 < length p" and "length p \<le> length s"
    using spaceSeqs_nonempty prefix_length_le by blast+
  then show "(drop (length p) s, s) \<in> measure length" by (cases p) auto
qed simp

function TrimRight :: "string \<Rightarrow> string" where
  "TrimRight s =
     (case find (\<lambda>p. suffix p s) spaceSeqs of
        None \<Rightarrow> s
      | Some p \<Rightarrow> TrimRight (take (length s - length p) s))"
  by pat_completeness auto
termination
proof (relation "measure length")
  fix s p
  assume "find (\<lambda>p. suffix p s) spaceSeqs = Some p"
  then have "p \<in> set spaceSeqs" and "suffix p s"
    by (auto simp: find_Some_iff)
  then have "0 < length p" and "length p \<le> length s"
    using spaceSeqs_nonempty suffix_length_le by blast+
  then show "(take (length s - length p) s, s) \<in> measure length" by (cases p) auto
qed simp

declare TrimLeft.simps [simp del] TrimRight.simps [simp del]

definition TrimSpace :: "string \<Rightarrow> string" where
  "TrimSpace s = TrimRight (TrimLeft s)"

text \<open>
  \<open>(*StackTrace).String\<close>: \<open>FormatStack\<close> asks the frame iterator for the next frame and
  whether more follow, and formats the frame only when more follow, so the last frame is
  left out. The formatter's state is its buffer and its flag \<open>nonEmpty\<close>.
\<close>

definition FormatFrame :: "string \<times> bool \<Rightarrow> runtime_Frame \<Rightarrow> string \<times> bool" where
  "FormatFrame sf frame =
     (case sf of (b, nonEmpty) \<Rightarrow>
        ((if nonEmpty then b @ ''\<newline>'' else b) @
           rf_Function frame @ ''\<newline>'' @ [CHR 0x09] @ rf_File frame @ '':'' @
           Itoa (rf_Line frame),
         True))"

fun FormatStack :: "string \<times> bool \<Rightarrow> runtime_Frame list \<Rightarrow> string \<times> bool" where
  "FormatStack sf [] = sf"
| "FormatStack sf [frame] = sf"
| "FormatStack sf (frame # rest) = FormatStack (FormatFrame sf frame) rest"

definition StackTrace_String :: "runtime \<Rightarrow> Stack \<Rightarrow> string" where
  "StackTrace_String rt s = fst (FormatStack ('''', False) (rt_CallersFrames rt s))"

definition detailSep :: string where
  "detailSep = ''\<newline>  | ''"

definition outputStackTrace :: "bool \<Rightarrow> string \<Rightarrow> string" where
  "outputStackTrace hasSkippedFrames stackTraceString =
     (if hasSkippedFrames \<or> TrimSpace stackTraceString \<noteq> ''''
      then ''\<newline>  -- Stack trace:'' @ ReplaceAll stackTraceString ''\<newline>'' detailSep
      else '''') @
     (if hasSkippedFrames then detailSep @ ''[...repeated from below...]'' else '''')"

text \<open>
  \<open>printEntry\<close>: the message of the entry, after a space unless it starts with a
  newline, then the stack of a \<open>*withStack\<close> or \<open>*withFields\<close>.
\<close>

definition printEntry :: "runtime \<Rightarrow> error \<Rightarrow> string" where
  "printEntry rt entry =
     (let errString = Error entry
      in (if 0 < length errString
          then (if \<not> HasPrefix errString ''\<newline>'' then '' '' else '''') @ errString
          else '''') @
         (case entry of
            withStack a cause st sk \<Rightarrow> outputStackTrace sk (StackTrace_String rt st)
          | _ \<Rightarrow> '''') @
         (case entry of
            withFields a fs cause st sk \<Rightarrow> outputStackTrace sk (StackTrace_String rt st)
          | _ \<Rightarrow> ''''))"

text \<open>
  The two loops of \<open>formatEntries\<close>; \<open>i\<close> runs down to \<open>0\<close> and \<open>j\<close> counts up.
  \<^verbatim>\<open>for i, j := len(entries)-2, 2; i >= 0; i, j = i-1, j+1 {
      fmt.Fprintf(st, "\nWraps: (%d)", j); printEntry(st, entries[i]) }
  for i, j := len(entries)-1, 1; i >= 0; i, j = i-1, j+1 {
      fmt.Fprintf(st, " (%d) %T", j, entries[i]) }\<close>
\<close>

function wrapsLoop :: "runtime \<Rightarrow> error list \<Rightarrow> int \<Rightarrow> int \<Rightarrow> string" where
  "wrapsLoop rt entries i j =
     (if 0 \<le> i
      then ''\<newline>Wraps: ('' @ Itoa j @ '')'' @ printEntry rt (entries ! nat i) @
           wrapsLoop rt entries (i - 1) (j + 1)
      else '''')"
  by pat_completeness auto
termination
  by (relation "measure (\<lambda>(rt, entries, i, j). nat (i + 1))") auto

function typesLoop :: "error list \<Rightarrow> int \<Rightarrow> int \<Rightarrow> string" where
  "typesLoop entries i j =
     (if 0 \<le> i
      then '' ('' @ Itoa j @ '') '' @ typeName (goType (entries ! nat i)) @
           typesLoop entries (i - 1) (j + 1)
      else '''')"
  by pat_completeness auto
termination
  by (relation "measure (\<lambda>(entries, i, j). nat (i + 1))") auto

declare wrapsLoop.simps [simp del] typesLoop.simps [simp del]

text \<open>
  \<open>(*withStack).formatEntries\<close> on a node with the given \<open>cause\<close>; the result is the
  text written to the formatter state. The entries are those of the cause, not of the
  node itself.
\<close>

definition formatEntries :: "runtime \<Rightarrow> error option \<Rightarrow> alloc \<Rightarrow> string \<times> alloc" where
  "formatEntries rt cause n =
     (case getEntries cause n of (entries, n1) \<Rightarrow>
        if length entries = 0 then ('''', n1)
        else
          (''(1)'' @ printEntry rt (entries ! (length entries - 1)) @
           wrapsLoop rt entries (int (length entries) - 2) 2 @
           ''\<newline>Error types:'' @
           typesLoop entries (int (length entries) - 1) 1,
           n1))"

text \<open>
  \<open>(*withStack).Format\<close>, the verbose rendering of a \<open>*withStack\<close>: the entries, then
  the node's own stack.
\<close>

fun Format :: "runtime \<Rightarrow> error \<Rightarrow> alloc \<Rightarrow> string \<times> alloc" where
  "Format rt (withStack a cause st sk) n =
     (case formatEntries rt (Some cause) n of (text, n1) \<Rightarrow>
        (text @ outputStackTrace False (StackTrace_String rt st), n1))"
| "Format rt e n = ('''', n)"

section \<open>Stack traces recovered from printed text\<close>

text \<open>
  \<open>strings.Split\<close> for a non-empty separator: the pieces between the non-overlapping
  occurrences of the separator, found from left to right; \<open>cur\<close> holds the bytes of the
  piece being read, newest first. The program only splits at \<open>"\n"\<close>.
\<close>

function splitAcc :: "string \<Rightarrow> string \<Rightarrow> string \<Rightarrow> string list" where
  "splitAcc cur s sep =
     (if s = [] then [rev cur]
      else if sep \<noteq> [] \<and> prefix sep s then rev cur # splitAcc [] (drop (length sep) s) sep
      else splitAcc (hd s # cur) (tl s) sep)"
  by pat_completeness auto
termination
  by (relation "measure (\<lambda>(cur, s, sep). length s)") (auto simp: prefix_def)

declare splitAcc.simps [simp del]

definition Split :: "string \<Rightarrow> string \<Rightarrow> string list" where
  "Split s sep = splitAcc [] s sep"

text \<open>
  \<open>strings.LastIndexByte\<close>: the index of the last occurrence of a byte, \<open>-1\<close> if there
  is none. \<open>strings.LastIndex\<close> with a one-byte pattern is the same function.
\<close>

definition LastIndexByte :: "string \<Rightarrow> char \<Rightarrow> int" where
  "LastIndexByte s c =
     (if c \<in> set s then int (length s) - 1 - int (length (takeWhile (\<lambda>x. x \<noteq> c) (rev s)))
      else - 1)"

definition TrimPrefix :: "string \<Rightarrow> string \<Rightarrow> string" where
  "TrimPrefix s p = (if prefix p s then drop (length p) s else s)"

text \<open>
  \<open>strconv.Atoi\<close>, as the value it returns when the error is ignored (\<open>line, _ =
  strconv.Atoi(lineStr)\<close>), for a 64-bit \<open>int\<close>: an optional sign and at least one
  decimal digit give the number, clamped to the range of \<open>int\<close> when it does not fit;
  anything else gives \<open>0\<close>.
\<close>

definition isDigit :: "char \<Rightarrow> bool" where
  "isDigit ch = (48 \<le> (of_char ch :: nat) \<and> (of_char ch :: nat) \<le> 57)"

definition digitsValue :: "string \<Rightarrow> int" where
  "digitsValue ds = foldl (\<lambda>n ch. n * 10 + (int (of_char ch) - 48)) 0 ds"

definition Atoi :: "string \<Rightarrow> int" where
  "Atoi s =
     (let neg = (s \<noteq> [] \<and> hd s = CHR ''-'');
          ds = (if s \<noteq> [] \<and> (hd s = CHR ''-'' \<or> hd s = CHR ''+'') then tl s else s)
      in if ds = [] \<or> \<not> list_all isDigit ds then 0
         else if neg then max (- (2 ^ 63)) (- digitsValue ds)
         else min (2 ^ 63 - 1) (digitsValue ds))"

text \<open>
  The part of the Sentry \<open>Frame\<close> that this path fills in; the other fields keep their
  zero values. \<open>ReportableStackTrace\<close> holds the frames.
\<close>

record Frame =
  Function :: string
  Module :: string
  Filename :: string
  AbsPath :: string
  Lineno :: int
  InApp :: bool

record ReportableStackTrace =
  Frames :: "Frame list"
  FramesOmitted :: "nat list"

text \<open>
  \<open>trimPath\<close> removes the first prefix of the global list \<open>trimPaths\<close> that the file
  name starts with. The list is built once, at start-up, from the source directories of
  the Go installation; it is a parameter here.
\<close>

fun trimPath :: "string list \<Rightarrow> string \<Rightarrow> string" where
  "trimPath [] filename = filename"
| "trimPath (pre # trimPaths) filename =
     (let trimmed = TrimPrefix filename pre
      in if length trimmed < length filename then trimmed else trimPath trimPaths filename)"

text \<open>
  \<open>functionName\<close> splits at the last dot and replaces the middle dot (U+00B7, the two
  bytes \<open>0xC2 0xB7\<close>) by a dot in the name.
\<close>

definition functionName :: "string \<Rightarrow> string \<times> string" where
  "functionName fnName =
     (let idx = LastIndexByte fnName CHR ''.'';
          (pack, name) = (if idx \<noteq> - 1
                          then (take (nat idx) fnName, drop (nat (idx + 1)) fnName)
                          else ('''', fnName))
      in (pack, ReplaceAll name [CHR 0xC2, CHR 0xB7] ''.''))"

text \<open>
  \<open>parsePrintedStackEntry lines i\<close>, called with \<open>i < len(lines)\<close>: the function name
  is line \<open>i\<close>; when the next line starts with a tab it holds \<open>file:line\<close>. The result is
  the index of the last line read, the file, the line number and the function name.
\<close>

definition parsePrintedStackEntry :: "string list \<Rightarrow> nat \<Rightarrow> nat \<times> string \<times> int \<times> string" where
  "parsePrintedStackEntry lines i =
     (let fnName = lines ! i in
      if int i < int (length lines) - 1 \<and> HasPrefix (lines ! (i + 1)) [CHR 0x09] then
        (let fileLine = TrimSpace (lines ! (i + 1));
             lineSep = LastIndexByte fileLine CHR '':''
         in if lineSep = - 1 then (i + 1, fileLine, 0, fnName)
            else (i + 1, take (nat lineSep) fileLine,
                  Atoi (drop (nat (lineSep + 1)) fileLine), fnName))
      else (i, '''', 0, fnName))"

text \<open>The frame that the loop body of \<open>parsePrintedStack\<close> composes from one entry.\<close>

definition composeFrame :: "string list \<Rightarrow> string \<Rightarrow> int \<Rightarrow> string \<Rightarrow> Frame" where
  "composeFrame trimPaths file line fnName =
     (let frame = \<lparr>Function = fnName, Module = ''unknown'', Filename = trimPath trimPaths file,
                    AbsPath = file, Lineno = line, InApp = True\<rparr>
      in if fnName \<noteq> ''unknown''
         then (case functionName fnName of (m, f) \<Rightarrow> frame\<lparr>Function := f, Module := m\<rparr>)
         else frame)"

lemma parsePrintedStackEntry_next: "i \<le> fst (parsePrintedStackEntry lines i)"
  by (simp add: parsePrintedStackEntry_def Let_def)

lemma parsePrintedStackEntry_next':
  "parsePrintedStackEntry lines i = (nextI, rest) \<Longrightarrow> i < length lines \<Longrightarrow>
   length lines - Suc nextI < length lines - i"
  using parsePrintedStackEntry_next [of i lines] by simp

text \<open>
  The first loop of \<open>parsePrintedStack\<close>:
  \<^verbatim>\<open>for i := 0; i < len(lines); i++ {
      nextI, file, line, fnName := parsePrintedStackEntry(lines, i); i = nextI
      ...; frames = append(frames, frame) }\<close>
\<close>

function parseLoop :: "string list \<Rightarrow> string list \<Rightarrow> nat \<Rightarrow> Frame list \<Rightarrow> Frame list" where
  "parseLoop trimPaths lines i frames =
     (if i < length lines then
        (case parsePrintedStackEntry lines i of (nextI, file, line, fnName) \<Rightarrow>
           parseLoop trimPaths lines (nextI + 1)
             (frames @ [composeFrame trimPaths file line fnName]))
      else frames)"
  by pat_completeness auto
termination
  by (relation "measure (\<lambda>(trimPaths, lines, i, frames). length lines - i)")
     (auto dest: parsePrintedStackEntry_next' [OF sym])

declare parseLoop.simps [simp del]

text \<open>
  The second loop reverses the slice in place:
  \<^verbatim>\<open>for i, j := 0, len(frames)-1; i < j; i, j = i+1, j-1 {
      frames[i], frames[j] = frames[j], frames[i] }\<close>
\<close>

function reverseLoop :: "'a list \<Rightarrow> int \<Rightarrow> int \<Rightarrow> 'a list" where
  "reverseLoop frames i j =
     (if i < j
      then reverseLoop (frames[nat i := frames ! nat j, nat j := frames ! nat i]) (i + 1) (j - 1)
      else frames)"
  by pat_completeness auto
termination
  by (relation "measure (\<lambda>(frames, i, j). nat (j - i))") auto

declare reverseLoop.simps [simp del]

definition parsePrintedStack :: "string list \<Rightarrow> string \<Rightarrow> ReportableStackTrace option" where
  "parsePrintedStack trimPaths st =
     (let lines = Split (TrimSpace st) ''\<newline>'';
          frames = parseLoop trimPaths lines 0 []
      in if frames = [] then None
         else Some \<lparr>Frames = reverseLoop frames 0 (int (length frames) - 1),
                     FramesOmitted = []\<rparr>)"

section \<open>Notions used to state the properties\<close>

text \<open>
  \<open>chain err n\<close> is the sequence of values met by unwrapping \<open>err\<close> again and again,
  outermost first, starting with the allocation state \<open>n\<close>.
\<close>

function chain :: "error option \<Rightarrow> alloc \<Rightarrow> error list" where
  "chain None n = []"
| "chain (Some err) n = err # (case UnwrapOnce err n of (next, n1) \<Rightarrow> chain next n1)"
  by pat_completeness auto
termination
  by (relation "measure (\<lambda>(err, n). case err of None \<Rightarrow> 0 | Some e \<Rightarrow> Suc (size e))")
     (auto dest: UnwrapOnce_size [OF sym] UnwrapOnce_size split: option.splits prod.splits)

text \<open>
  \<open>stdChain e n\<close> is the sequence of values met by calling \<open>errors.Unwrap\<close> of the
  standard library on \<open>e\<close> again and again. \<open>noCause e\<close>: no value inside \<open>e\<close> has
  only a \<open>Cause\<close> method; then the two ways of unwrapping agree on \<open>e\<close>.
\<close>

function stdChain :: "error \<Rightarrow> alloc \<Rightarrow> error list" where
  "stdChain e n =
     e # (case errors_Unwrap e n of (None, n1) \<Rightarrow> [] | (Some e', n1) \<Rightarrow> stdChain e' n1)"
  by pat_completeness auto
termination
  by (relation "measure (\<lambda>(e, n). size e)") (auto dest: errors_Unwrap_size [OF sym])

declare stdChain.simps [simp del]

fun noCause :: "error \<Rightarrow> bool" where
  "noCause (errorString a s) = True"
| "noCause (wrapError a msg e) = noCause e"
| "noCause (valueError T s) = True"
| "noCause (causeError a msg cause) = False"
| "noCause (wrapper a front back) = (noCause front \<and> noCause back)"
| "noCause (withStack a cause st sk) = noCause cause"
| "noCause (withFields a fs cause st sk) = noCause cause"

text \<open>
  Unwrapping a \<open>*wrapper\<close> allocates, so the addresses of the wrapper nodes met on a
  chain depend on the allocation state. \<open>forget\<close> sets the address of every wrapper node
  to \<open>0\<close> and keeps everything else; two values with the same image differ only in the
  addresses of wrapper nodes.
\<close>

fun forget :: "error \<Rightarrow> error" where
  "forget (errorString a s) = errorString a s"
| "forget (wrapError a msg e) = wrapError a msg (forget e)"
| "forget (valueError T s) = valueError T s"
| "forget (causeError a msg cause) = causeError a msg (forget cause)"
| "forget (wrapper a front back) = wrapper 0 (forget front) (forget back)"
| "forget (withStack a cause st sk) = withStack a (forget cause) st sk"
| "forget (withFields a fs cause st sk) = withFields a fs (forget cause) st sk"

text \<open>
  The rendering of a sequence of entries in the order in which they are given: the first
  is labelled \<open>(1)\<close>, each following one \<open>Wraps: (2)\<close>, \<open>Wraps: (3)\<close> and so on, and the
  footer lists the types under the same numbers.
\<close>

fun wrapsFrom :: "runtime \<Rightarrow> int \<Rightarrow> error list \<Rightarrow> string" where
  "wrapsFrom rt j [] = ''''"
| "wrapsFrom rt j (x # xs) =
     ''\<newline>Wraps: ('' @ Itoa j @ '')'' @ printEntry rt x @ wrapsFrom rt (j + 1) xs"

fun typesFrom :: "int \<Rightarrow> error list \<Rightarrow> string" where
  "typesFrom j [] = ''''"
| "typesFrom j (x # xs) =
     '' ('' @ Itoa j @ '') '' @ typeName (goType x) @ typesFrom (j + 1) xs"

fun renderEntries :: "runtime \<Rightarrow> error list \<Rightarrow> string" where
  "renderEntries rt [] = ''''"
| "renderEntries rt (x # xs) =
     ''(1)'' @ printEntry rt x @ wrapsFrom rt 2 xs @
     ''\<newline>Error types:'' @ typesFrom 1 (x # xs)"

text \<open>A runtime that reports no frames, for concrete evaluations.\<close>

definition noFrames :: runtime where
  "noFrames = \<lparr>rt_Callers = (\<lambda>skip. []), rt_CallersFrames = (\<lambda>pcs. [])\<rparr>"

text \<open>
  The legacy printed form of a stack trace: for each frame a line with the function name,
  optionally followed by a line with a tab and \<open>file:line\<close>. \<open>textLines\<close> gives the
  lines of a sequence of such entries, and \<open>entryFrame\<close> is the frame that the parser
  builds from the lines of one entry alone.
\<close>

type_synonym printedEntry = "string \<times> string option"

fun entryLines :: "printedEntry \<Rightarrow> string list" where
  "entryLines (fn, None) = [fn]"
| "entryLines (fn, Some fileLine) = [fn, CHR 0x09 # fileLine]"

definition textLines :: "printedEntry list \<Rightarrow> string list" where
  "textLines es = concat (map entryLines es)"

definition entryFrame :: "string list \<Rightarrow> printedEntry \<Rightarrow> Frame" where
  "entryFrame trimPaths e =
     (case parsePrintedStackEntry (entryLines e) 0 of
        (nextI, file, line, fnName) \<Rightarrow> composeFrame trimPaths file line fnName)"

text \<open>
  \<open>occurs x e\<close>: some node of \<open>e\<close> is equal to \<open>x\<close>. \<open>olderThan x n\<close>: the target
  \<open>x\<close> existed in the allocation state \<open>n\<close>, so a wrapper node allocated from \<open>n\<close> on
  is a different pointer (wrapper nodes are the only nodes that a query allocates).
\<close>

fun occurs :: "error \<Rightarrow> error \<Rightarrow> bool" where
  "occurs x (errorString a s) = equal_errors (errorString a s) x"
| "occurs x (wrapError a msg e) = (equal_errors (wrapError a msg e) x \<or> occurs x e)"
| "occurs x (valueError T s) = equal_errors (valueError T s) x"
| "occurs x (causeError a msg cause) =
     (equal_errors (causeError a msg cause) x \<or> occurs x cause)"
| "occurs x (wrapper a front back) =
     (equal_errors (wrapper a front back) x \<or> occurs x front \<or> occurs x back)"
| "occurs x (withStack a cause st sk) =
     (equal_errors (withStack a cause st sk) x \<or> occurs x cause)"
| "occurs x (withFields a fs cause st sk) =
     (equal_errors (withFields a fs cause st sk) x \<or> occurs x cause)"

fun olderThan :: "error \<Rightarrow> alloc \<Rightarrow> bool" where
  "olderThan (wrapper a front back) n = (a < n)"
| "olderThan x n = True"

text \<open>
  A query started in state \<open>n\<close> with result \<open>r\<close> answers a question about the target
  \<open>x\<close>: the state does not decrease, a positive answer for a target older than \<open>n\<close>
  means \<open>may\<close>, and \<open>must\<close> forces a positive answer.
\<close>

definition answers :: "bool \<times> alloc \<Rightarrow> alloc \<Rightarrow> error \<Rightarrow> bool \<Rightarrow> bool \<Rightarrow> bool" where
  "answers r n x may must =
     (n \<le> snd r \<and> (olderThan x n \<and> fst r \<longrightarrow> may) \<and> (must \<longrightarrow> fst r))"

text \<open>
  What the \<open>Is\<close> method of a wrapper node is bound to find: a target that occurs in
  \<open>front\<close> or in \<open>back\<close>. The methods of the other types promise nothing by themselves.
\<close>

fun occursInSides :: "error \<Rightarrow> error \<Rightarrow> bool" where
  "occursInSides x (wrapper a front back) = (occurs x front \<or> occurs x back)"
| "occursInSides x e = False"

text \<open>
  \<open>entryLayers err n\<close> lists the mappings of the field-carrying entries of the chain of
  \<open>err\<close>, from the root cause to the outermost entry, and \<open>overrideAll\<close> merges a list
  of mappings so that each later one overrides the earlier ones.
\<close>

fun entryFields :: "error \<Rightarrow> Fields list" where
  "entryFields (withFields a fs cause st sk) = [fs]"
| "entryFields e = []"

definition entryLayers :: "error option \<Rightarrow> alloc \<Rightarrow> Fields list" where
  "entryLayers err n = concat (map entryFields (fst (getEntries err n)))"

definition overrideAll :: "Fields list \<Rightarrow> (string \<rightharpoonup> any)" where
  "overrideAll fss = foldl (\<lambda>m fs. m ++ map_of fs) Map.empty fss"

text \<open>
  A chain without combinator nodes: annotations with a stack, with fields or with a
  message, over an error without cause. For such a chain \<open>fieldLayers\<close> gives the
  mappings from the inside out, and \<open>firstFields\<close> the outermost field-carrying value.
\<close>

fun noCombinator :: "error \<Rightarrow> bool" where
  "noCombinator (errorString a s) = True"
| "noCombinator (wrapError a msg e) = noCombinator e"
| "noCombinator (valueError T s) = True"
| "noCombinator (causeError a msg cause) = noCombinator cause"
| "noCombinator (wrapper a front back) = False"
| "noCombinator (withStack a cause st sk) = noCombinator cause"
| "noCombinator (withFields a fs cause st sk) = noCombinator cause"

fun fieldLayers :: "error \<Rightarrow> Fields list" where
  "fieldLayers (wrapError a msg e) = fieldLayers e"
| "fieldLayers (causeError a msg cause) = fieldLayers cause"
| "fieldLayers (withStack a cause st sk) = fieldLayers cause"
| "fieldLayers (withFields a fs cause st sk) = fieldLayers cause @ [fs]"
| "fieldLayers e = []"

fun firstFields :: "error \<Rightarrow> error option" where
  "firstFields (wrapError a msg e) = firstFields e"
| "firstFields (causeError a msg cause) = firstFields cause"
| "firstFields (withStack a cause st sk) = firstFields cause"
| "firstFields (withFields a fs cause st sk) = Some (withFields a fs cause st sk)"
| "firstFields e = None"

text \<open>
  \<open>wrapLayers rt err fss n\<close> annotates \<open>err\<close> with each mapping of \<open>fss\<close> in turn, the
  first mapping innermost.
\<close>

fun wrapLayers :: "runtime \<Rightarrow> error option \<Rightarrow> Fields list \<Rightarrow> alloc \<Rightarrow> error option \<times> alloc" where
  "wrapLayers rt err [] n = (err, n)"
| "wrapLayers rt err (fs # fss) n =
     (case WrapWithFields rt err (Some fs) n of (err', n1) \<Rightarrow> wrapLayers rt err' fss n1)"

section \<open>Properties of suffix elision\<close>

lemma skipCommonSuffix_le: "skipCommonSuffix newSt prevSt i j \<le> i"
proof (induction newSt prevSt i j rule: skipCommonSuffix.induct)
  case (1 newSt prevSt i j)
  show ?case
  proof (cases "0 < i \<and> 0 < j \<and> newSt ! i = prevSt ! j")
    case True
    with 1 have "skipCommonSuffix newSt prevSt (i - 1) (j - 1) \<le> i - 1" by simp
    with True show ?thesis by (subst skipCommonSuffix.simps) simp
  next
    case False
    then show ?thesis by (subst skipCommonSuffix.simps) auto
  qed
qed

lemma skipCommonSuffix_same: "skipCommonSuffix s s i i = 0"
proof (induction i)
  case 0
  show ?case by (subst skipCommonSuffix.simps) simp
next
  case (Suc i)
  then show ?case by (subst skipCommonSuffix.simps) simp
qed

text \<open>
  When either pointer is \<open>nil\<close> or either slice is empty, the new stack comes back
  unchanged and nothing is reported as elided.
\<close>

lemma Elide_absent_or_empty:
  "prevStack = None \<or> prevStack = Some [] \<or> newStack = None \<or> newStack = Some []
   \<Longrightarrow> ElideSharedStackSuffix prevStack newStack = (newStack, False)"
  by (auto simp: ElideSharedStackSuffix_def split: option.splits)

text \<open>
  Otherwise the result is a non-empty prefix of the new stack that still starts with its
  newest frame.
\<close>

lemma Elide_keeps_newest:
  assumes "prevSt \<noteq> []" and "newSt \<noteq> []"
  shows "\<exists>k. 1 \<le> k \<and> k \<le> length newSt \<and>
             fst (ElideSharedStackSuffix (Some prevSt) (Some newSt)) = Some (take k newSt)"
proof -
  let ?i = "skipCommonSuffix newSt prevSt (length newSt - 1) (length prevSt - 1)"
  let ?k = "if ?i = 0 then 1 else ?i"
  have le: "?i \<le> length newSt - 1" by (rule skipCommonSuffix_le)
  from assms have len: "1 \<le> length newSt" by (cases newSt) auto
  have k: "1 \<le> ?k \<and> ?k \<le> length newSt" using le len by auto
  have "fst (ElideSharedStackSuffix (Some prevSt) (Some newSt)) = Some (take ?k newSt)"
    using assms by (simp add: ElideSharedStackSuffix_def Let_def)
  with k show ?thesis by blast
qed

text \<open>
  C2. The claim says that the kept prefix holds every frame of the new stack that is not
  part of the matched shared suffix. The code keeps \<open>newSt[:i]\<close>, where \<open>i\<close> is the
  index of the first frame (counted from the oldest end) that did not match, so that frame
  is dropped although the previous stack does not contain it. With previous stack
  \<open>[10, 21, 30, 40]\<close> and new stack \<open>[50, 22, 30, 40]\<close> the shared suffix is
  \<open>[30, 40]\<close>; the frames outside it are \<open>[50, 22]\<close>, and the code returns \<open>[50]\<close>.
\<close>

theorem C2_Elide_drops_unmatched_frame:
  "ElideSharedStackSuffix (Some [10, 21, 30, 40]) (Some [50, 22, 30, 40]) = (Some [50], True)"
  by (simp add: ElideSharedStackSuffix_def Let_def skipCommonSuffix.simps)

text \<open>
  C3. The claim says that eliding a snapshot of more than one frame against itself keeps
  one frame and reports the elision. The code keeps one frame, but reports
  \<open>i < len(newSt)-1\<close> with \<open>i = 1\<close>, so for a snapshot of exactly two frames the frame
  that was removed is not reported.
\<close>

theorem C3_Elide_self_two_frames:
  "ElideSharedStackSuffix (Some [1, 2]) (Some [1, 2]) = (Some [1], False)"
  by (simp add: ElideSharedStackSuffix_def Let_def skipCommonSuffix.simps)

text \<open>
  What the code does when a snapshot is elided against itself: one frame is kept, and
  the flag is set exactly when the snapshot has more than two frames.
\<close>

lemma Elide_self:
  "s \<noteq> [] \<Longrightarrow> ElideSharedStackSuffix (Some s) (Some s) = (Some (take 1 s), 2 < length s)"
  by (auto simp: ElideSharedStackSuffix_def Let_def skipCommonSuffix_same)

section \<open>Properties of unwrapping\<close>


lemma getEntries_loop_chain:
  "fst (getEntries_loop err entries n) = rev (chain err n) @ entries"
proof (induction err entries n rule: getEntries_loop.induct)
  case (1 entries n)
  show ?case by simp
next
  case (2 err entries n)
  then show ?case by (cases "UnwrapOnce err n") simp
qed

lemma getEntries_chain: "fst (getEntries err n) = rev (chain err n)"
  by (simp add: getEntries_def getEntries_loop_chain)

lemma forget_eq_cases:
  "forget (errorString a s) = forget e' \<Longrightarrow> e' = errorString a s"
  "forget (valueError T s) = forget e' \<Longrightarrow> e' = valueError T s"
  "forget (wrapError a msg e) = forget e' \<Longrightarrow> \<exists>x. e' = wrapError a msg x \<and> forget e = forget x"
  "forget (causeError a msg e) = forget e' \<Longrightarrow> \<exists>x. e' = causeError a msg x \<and> forget e = forget x"
  "forget (withStack a c st sk) = forget e' \<Longrightarrow> \<exists>x. e' = withStack a x st sk \<and> forget c = forget x"
  "forget (withFields a fs c st sk) = forget e' \<Longrightarrow> \<exists>x. e' = withFields a fs x st sk \<and> forget c = forget x"
  "forget (wrapper a f b) = forget e' \<Longrightarrow> \<exists>a' f' b'. e' = wrapper a' f' b' \<and> forget f = forget f' \<and> forget b = forget b'"
  by (cases e'; simp)+


lemma errors_Unwrap_forget:
  "forget e = forget e' \<Longrightarrow>
   map_option forget (fst (errors_Unwrap e n)) = map_option forget (fst (errors_Unwrap e' m))"
proof (induction e arbitrary: e' n m)
  case (wrapper a f b)
  from forget_eq_cases(7) [OF wrapper.prems] obtain a' f' b' where e': "e' = wrapper a' f' b'"
    and f: "forget f = forget f'" and b: "forget b = forget b'"
    by blast
  obtain r n1 where u: "errors_Unwrap f n = (r, n1)" by (cases "errors_Unwrap f n")
  obtain r' m1 where u': "errors_Unwrap f' m = (r', m1)" by (cases "errors_Unwrap f' m")
  from wrapper.IH(1) [OF f, of n m] u u'
  have rr: "map_option forget r = map_option forget r'" by simp
  show ?case
  proof (cases r)
    case None
    with rr have "r' = None" by simp
    with None u u' b e' show ?thesis by simp
  next
    case (Some x)
    with rr obtain x' where "r' = Some x'" and "forget x = forget x'" by (cases r') auto
    with Some u u' b e' show ?thesis by simp
  qed
next
  case (errorString a s)
  from forget_eq_cases(1) [OF this] show ?case by simp
next
  case (wrapError a msg e)
  from forget_eq_cases(3) [OF wrapError.prems] show ?case by auto
next
  case (valueError T s)
  from forget_eq_cases(2) [OF this] show ?case by simp
next
  case (causeError a msg e)
  from forget_eq_cases(4) [OF causeError.prems] show ?case by auto
next
  case (withStack a c st sk)
  from forget_eq_cases(5) [OF withStack.prems] show ?case by auto
next
  case (withFields a fs c st sk)
  from forget_eq_cases(6) [OF withFields.prems] show ?case by auto
qed

lemma UnwrapOnce_forget:
  assumes eq: "forget e = forget e'"
  shows "map_option forget (fst (UnwrapOnce e n)) = map_option forget (fst (UnwrapOnce e' m))"
proof (cases e)
  case (errorString a s)
  from forget_eq_cases(1) [OF eq [unfolded errorString]] errorString show ?thesis by simp
next
  case (wrapError a msg c)
  from forget_eq_cases(3) [OF eq [unfolded wrapError]] wrapError show ?thesis by auto
next
  case (valueError T s)
  from forget_eq_cases(2) [OF eq [unfolded valueError]] valueError show ?thesis by simp
next
  case (causeError a msg c)
  from forget_eq_cases(4) [OF eq [unfolded causeError]] causeError show ?thesis by auto
next
  case (wrapper a f b)
  from forget_eq_cases(7) [OF eq [unfolded wrapper]]
  obtain a' f' b' where "e' = wrapper a' f' b'" by auto
  with errors_Unwrap_forget [OF eq, of n m] wrapper show ?thesis
    by (simp only: UnwrapOnce.simps)
next
  case (withStack a c st sk)
  from forget_eq_cases(5) [OF eq [unfolded withStack]] withStack show ?thesis by auto
next
  case (withFields a fs c st sk)
  from forget_eq_cases(6) [OF eq [unfolded withFields]] withFields show ?thesis by auto
qed



text \<open>
  Where no value has only a \<open>Cause\<close> method, the chain that \<open>errors.Unwrap\<close> walks is the
  chain that the package walks.
\<close>

lemma noCause_UnwrapOnce: "noCause e \<Longrightarrow> UnwrapOnce e n = errors_Unwrap e n"
  by (cases e) simp_all

lemma noCause_errors_Unwrap:
  "errors_Unwrap e n = (Some e', n') \<Longrightarrow> noCause e \<Longrightarrow> noCause e'"
proof (induction e arbitrary: e' n')
  case (wrapper a f b)
  obtain r n1 where u: "errors_Unwrap f n = (r, n1)" by (cases "errors_Unwrap f n")
  show ?case
  proof (cases r)
    case None
    with u wrapper.prems show ?thesis by auto
  next
    case (Some f1)
    with u wrapper.IH(1) [of f1 n1] wrapper.prems show ?thesis by auto
  qed
qed auto

lemma stdChain_chain: "noCause e \<Longrightarrow> stdChain e n = chain (Some e) n"
proof (induction "size e" arbitrary: e n rule: less_induct)
  case less
  obtain r n1 where u: "errors_Unwrap e n = (r, n1)" by (cases "errors_Unwrap e n")
  show ?case
  proof (cases r)
    case None
    with u less.prems show ?thesis
      by (subst stdChain.simps) (simp add: noCause_UnwrapOnce del: UnwrapOnce.simps)
  next
    case (Some e')
    with u have "size e' < size e" by (auto dest: errors_Unwrap_size)
    moreover from Some u less.prems have "noCause e'" by (auto dest: noCause_errors_Unwrap)
    ultimately have "stdChain e' n1 = chain (Some e') n1" by (rule less.hyps)
    with Some u less.prems show ?thesis
      by (subst stdChain.simps) (simp add: noCause_UnwrapOnce del: UnwrapOnce.simps)
  qed
qed

lemma errors_Unwrap_mono: "n \<le> snd (errors_Unwrap e n)"
proof (induction e arbitrary: n)
  case (wrapper a f b)
  obtain r n1 where u: "errors_Unwrap f n = (r, n1)" by (cases "errors_Unwrap f n")
  with wrapper.IH(1) [of n] have "n \<le> n1" by simp
  with u show ?case by (cases r) auto
qed auto






section \<open>Properties of the combinator and of annotation\<close>

text \<open>
  C6. The message of \<open>With(back = a, front = b)\<close> for two errors that are not \<open>nil\<close>
  is the message of \<open>b\<close>, a colon and a space, and the message of \<open>a\<close>; when one of
  the two messages is empty, it is the other message alone.
\<close>

theorem C6_With_message:
  "\<exists>w. fst (With (Some a) (Some b) n) = Some w \<and>
       Error w = (if Error b = '''' then Error a
                  else if Error a = '''' then Error b
                  else Error b @ '': '' @ Error a)"
  by (simp add: With_def Let_def)

theorem C6_With_message_witness:
  "\<exists>w. fst (With (Some (errorString 0 ''one'')) (Some (errorString 1 ''two'')) 2) = Some w \<and>
       Error w = ''two: one''"
  using C6_With_message [of "errorString 0 ''one''" "errorString 1 ''two''" 2] by simp

text \<open>
  C7. Absent inputs give absent results and allocate nothing: \<open>With\<close> with a \<open>nil\<close>
  \<open>back\<close> returns \<open>nil\<close>, \<open>With\<close> with a \<open>nil\<close> \<open>front\<close> returns \<open>back\<close> itself, and
  the annotations of a \<open>nil\<close> error return \<open>nil\<close>.
\<close>

theorem C7_absent_inputs:
  "With None f n = (None, n) \<and>
   With b None n = (b, n) \<and>
   WithStack rt None n = (None, n) \<and>
   WithStackDepth rt None depth n = (None, n) \<and>
   WrapWithFields rt None flds n = (None, n) \<and>
   WrapWithFieldsAndDepth rt None flds depth n = (None, n)"
  by (simp add: With_def WithStack_def WithStackDepth_def WrapWithFields_def
        WrapWithFieldsAndDepth_def split: option.splits)

text \<open>
  C10. Annotating an error that is not \<open>nil\<close> with a stack gives a node with the same
  message.
\<close>

theorem C10_WithStack_message:
  "\<exists>w. fst (WithStack rt (Some err) n) = Some w \<and> Error w = Error err"
  by (simp add: WithStack_def WithStackDepth_def Let_def split: prod.splits)

theorem C10_WithStack_message_witness:
  "\<exists>w. fst (WithStack noFrames (Some (errorString 0 ''boom'')) 1) = Some w \<and> Error w = ''boom''"
  using C10_WithStack_message [of noFrames "errorString 0 ''boom''" 1] by simp

section \<open>The identity query on chains that unwrap through \<open>Unwrap\<close>\<close>

text \<open>
  On values without a type that has \<open>Cause\<close> alone, \<open>Is\<close> is true exactly when some
  node of the error is equal to the target.
\<close>


lemma equal_fresh_wrapper:
  "olderThan x n \<Longrightarrow> n \<le> m \<Longrightarrow> \<not> equal_errors (wrapper m f b) x"
  by (cases x) (auto simp: equal_errors_def)

lemma olderThan_mono: "olderThan x n \<Longrightarrow> n \<le> m \<Longrightarrow> olderThan x m"
  by (cases x) auto

lemma occurs_self: "equal_errors e x \<Longrightarrow> occurs x e"
  by (cases e) auto

lemma errors_Unwrap_occurs_sound:
  "errors_Unwrap e n = (Some e', n') \<Longrightarrow> olderThan x n \<Longrightarrow> occurs x e' \<Longrightarrow> occurs x e"
proof (induction e arbitrary: e' n')
  case (wrapper a f b)
  obtain r n1 where u: "errors_Unwrap f n = (r, n1)" by (cases "errors_Unwrap f n")
  from errors_Unwrap_mono [of n f] u have le: "n \<le> n1" by simp
  show ?case
  proof (cases r)
    case None
    with u wrapper.prems show ?thesis by auto
  next
    case (Some f1)
    with u wrapper.prems have e': "e' = wrapper n1 f1 b" by auto
    from equal_fresh_wrapper [OF wrapper.prems(2) le] have "\<not> equal_errors (wrapper n1 f1 b) x" .
    with e' wrapper.prems(3) have "occurs x f1 \<or> occurs x b" by simp
    then show ?thesis
    proof
      assume "occurs x f1"
      from wrapper.IH(1) [OF _ wrapper.prems(2) this] u Some show ?thesis by simp
    next
      assume "occurs x b" then show ?thesis by simp
    qed
  qed
qed auto

lemma errors_Unwrap_leaf:
  "errors_Unwrap e n = (None, n') \<Longrightarrow> noCause e \<Longrightarrow> occurs x e = equal_errors e x"
  by (cases e) (auto split: prod.splits option.splits)

lemma errors_Unwrap_occurs_complete:
  "errors_Unwrap e n = (Some e', n') \<Longrightarrow> occurs x e \<Longrightarrow> \<not> equal_errors e x \<Longrightarrow>
   goType e \<noteq> T_wrapper \<Longrightarrow> occurs x e'"
  by (cases e) auto


lemma answersI:
  "n \<le> snd r \<Longrightarrow> (olderThan x n \<Longrightarrow> fst r \<Longrightarrow> may) \<Longrightarrow> (must \<Longrightarrow> fst r) \<Longrightarrow>
   answers r n x may must"
  by (auto simp: answers_def)

lemma answers_le: "answers r n x may must \<Longrightarrow> n \<le> snd r"
  by (simp add: answers_def)

lemma answers_may: "answers r n x may must \<Longrightarrow> olderThan x n \<Longrightarrow> fst r \<Longrightarrow> may"
  by (simp add: answers_def)

lemma answers_must: "answers r n x may must \<Longrightarrow> must \<Longrightarrow> fst r"
  by (simp add: answers_def)

lemma occursInSides_hasIs: "occursInSides x e \<Longrightarrow> hasIs e"
  by (cases e) auto

lemma occursInSides_wrapper:
  "goType e = T_wrapper \<Longrightarrow> occurs x e \<Longrightarrow> \<not> equal_errors e x \<Longrightarrow> occursInSides x e"
  by (cases e) auto

lemma delegate_answers:
  assumes "answers (Is_method e x n) n x (occurs x e) (occursInSides x e)"
  shows "answers (if hasIs e then Is_method e x n else (False, n)) n x
           (occurs x e) (occursInSides x e)"
proof (cases "hasIs e")
  case True
  with assms show ?thesis by simp
next
  case False
  then have "\<not> occursInSides x e" using occursInSides_hasIs by blast
  with False show ?thesis by (simp add: answers_def)
qed

lemma loop_answers:
  assumes IHi: "\<And>e x n. size e \<le> k \<Longrightarrow> noCause e \<Longrightarrow>
                  answers (errors_Is e x n) n x (occurs x e) (occurs x e)"
  shows "size inner \<le> k \<Longrightarrow> noCause inner \<Longrightarrow>
         answers (wrapper_Is_loop (Some inner) x n) n x (occurs x inner) (occurs x inner)"
proof (induction "size inner" arbitrary: inner n rule: less_induct)
  case less
  note nc = less.prems(2)
  obtain r n1 where i: "errors_Is inner x n = (r, n1)" by (cases "errors_Is inner x n")
  from IHi [OF less.prems, of x n] i
  have a: "answers (r, n1) n x (occurs x inner) (occurs x inner)" by simp
  from answers_le [OF a] have le1: "n \<le> n1" by simp
  show ?case
  proof (cases r)
    case True
    with i have "wrapper_Is_loop (Some inner) x n = (True, n1)" by simp
    with a True show ?thesis by simp
  next
    case False
    with answers_must [OF a] have nocc: "\<not> occurs x inner" by auto
    obtain nx n2 where u: "UnwrapOnce inner n1 = (nx, n2)" by (cases "UnwrapOnce inner n1")
    from u have ue: "errors_Unwrap inner n1 = (nx, n2)" by (simp only: noCause_UnwrapOnce [OF nc])
    from errors_Unwrap_mono [of n1 inner] ue have le2: "n1 \<le> n2" by simp
    from i False u have l: "wrapper_Is_loop (Some inner) x n = wrapper_Is_loop nx x n2" by simp
    show ?thesis
    proof (cases nx)
      case None
      with l le1 le2 nocc show ?thesis by (simp add: answers_def)
    next
      case (Some e2)
      with u have sz: "size e2 < size inner" by (auto dest: UnwrapOnce_size)
      with less.prems have "size e2 \<le> k" by simp
      moreover from ue Some nc have "noCause e2" by (auto dest: noCause_errors_Unwrap)
      ultimately have "answers (wrapper_Is_loop (Some e2) x n2) n2 x (occurs x e2) (occurs x e2)"
        by (rule less.hyps [OF sz])
      then
      have b: "answers (wrapper_Is_loop (Some e2) x n2) n2 x (occurs x e2) (occurs x e2)" .
      show ?thesis
      proof (rule answersI)
        from answers_le [OF b] le1 le2 l Some
        show "n \<le> snd (wrapper_Is_loop (Some inner) x n)" by simp
      next
        assume o: "olderThan x n" and f: "fst (wrapper_Is_loop (Some inner) x n)"
        from o le1 le2 have o1: "olderThan x n1" and o2: "olderThan x n2"
          by (auto intro: olderThan_mono)
        from answers_may [OF b o2] f l Some have "occurs x e2" by simp
        with errors_Unwrap_occurs_sound [of inner n1 e2 n2 x] ue Some o1
        show "occurs x inner" by simp
      next
        assume "occurs x inner"
        with nocc show "fst (wrapper_Is_loop (Some inner) x n)" by simp
      qed
    qed
  qed
qed


lemma method_answers_cause:
  assumes IHm: "answers (Is_method c x n) n x (occurs x c) (occursInSides x c)"
    and occ: "\<And>y. occurs y c \<Longrightarrow> occurs y e"
    and m: "Is_method e x n =
              (if Comparable x \<and> equal_errors c x then (True, n)
               else if hasIs c then Is_method c x n else (False, n))"
    and ns: "\<not> occursInSides x e"
  shows "answers (Is_method e x n) n x (occurs x e) (occursInSides x e)"
proof (cases "equal_errors c x")
  case True
  then have "occurs x e" using occ occurs_self by blast
  with True m ns show ?thesis by (simp add: answers_def Comparable_def)
next
  case False
  show ?thesis
  proof (cases "hasIs c")
    case True
    with False m have "Is_method e x n = Is_method c x n" by (simp add: Comparable_def)
    with IHm occ ns show ?thesis by (auto simp: answers_def)
  next
    case False
    with \<open>\<not> equal_errors c x\<close> m ns show ?thesis by (simp add: answers_def)
  qed
qed

lemma method_answers_wrapper:
  assumes IHi: "\<And>e' x n. size e' < size (wrapper a f b) \<Longrightarrow> noCause e' \<Longrightarrow>
                  answers (errors_Is e' x n) n x (occurs x e') (occurs x e')"
    and IHm: "\<And>e' x n. size e' < size (wrapper a f b) \<Longrightarrow> noCause e' \<Longrightarrow>
                  answers (Is_method e' x n) n x (occurs x e') (occursInSides x e')"
    and nc: "noCause (wrapper a f b)"
  shows "answers (Is_method (wrapper a f b) x n) n x
           (occurs x (wrapper a f b)) (occursInSides x (wrapper a f b))"
proof (cases "equal_errors f x")
  case True
  then have "occurs x f" by (rule occurs_self)
  with True show ?thesis by (simp add: answers_def Comparable_def)
next
  case nf: False
  let ?e = "wrapper a f b"
  from nc have ncf: "noCause f" and ncb: "noCause b" by simp_all
  have Mf: "answers (Is_method f x k) k x (occurs x f) (occursInSides x f)" for k
    by (rule IHm) (simp_all add: ncf)
  have Mb: "answers (Is_method b x k) k x (occurs x b) (occursInSides x b)" for k
    by (rule IHm) (simp_all add: ncb)
  obtain r1 n1 where d1: "(if hasIs f then Is_method f x n else (False, n)) = (r1, n1)"
    by (cases "if hasIs f then Is_method f x n else (False, n)")
  have a1: "answers (r1, n1) n x (occurs x f) (occursInSides x f)"
    using delegate_answers [OF Mf [of n]] d1 by simp
  from answers_le [OF a1] have le1: "n \<le> n1" by simp
  show ?thesis
  proof (cases r1)
    case True
    with nf d1 have "Is_method ?e x n = (True, n1)" by (simp add: Comparable_def)
    moreover from True a1 have "olderThan x n \<Longrightarrow> occurs x f" by (simp add: answers_def)
    ultimately show ?thesis using le1 by (auto simp: answers_def)
  next
    case r1: False
    obtain r2 n2 where d2: "(if hasIs b then Is_method b x n1 else (False, n1)) = (r2, n2)"
      by (cases "if hasIs b then Is_method b x n1 else (False, n1)")
    have a2: "answers (r2, n2) n1 x (occurs x b) (occursInSides x b)"
      using delegate_answers [OF Mb [of n1]] d2 by simp
    from answers_le [OF a2] have le2: "n1 \<le> n2" by simp
    show ?thesis
    proof (cases r2)
      case True
      with nf d1 d2 r1 have "Is_method ?e x n = (True, n2)" by (simp add: Comparable_def)
      moreover from True a2 le1 have "olderThan x n \<Longrightarrow> occurs x b"
        by (auto simp: answers_def intro: olderThan_mono)
      ultimately show ?thesis using le1 le2 by (auto simp: answers_def)
    next
      case r2: False
      obtain inner n3 where w: "wrapper_Unwrap f b n2 = (inner, n3)"
        by (cases "wrapper_Unwrap f b n2")
      have m: "Is_method ?e x n = wrapper_Is_loop inner x n3"
        using nf d1 d2 r1 r2 w by (simp add: Comparable_def)
      from w have ue: "errors_Unwrap ?e n2 = (inner, n3)" by simp
      from errors_Unwrap_mono [of n2 ?e] ue have le3: "n2 \<le> n3" by simp
      obtain i where i: "inner = Some i"
        using w by (cases "errors_Unwrap f n2") (auto split: option.splits)
      have sz: "size i < size ?e" by (rule errors_Unwrap_size [OF ue [unfolded i]])
      have nci: "noCause i" by (rule noCause_errors_Unwrap [OF ue [unfolded i] nc])
      have "answers (wrapper_Is_loop (Some i) x n3) n3 x (occurs x i) (occurs x i)"
      proof (rule loop_answers [where k = "size ?e - 1"])
        fix e' :: error and y k' assume "size e' \<le> size ?e - 1" and nc': "noCause e'"
        then have "size e' < size ?e" by simp
        then show "answers (errors_Is e' y k') k' y (occurs y e') (occurs y e')"
          using nc' by (rule IHi)
      next
        from sz show "size i \<le> size ?e - 1" by simp
      next
        show "noCause i" by (rule nci)
      qed
      with i m have l: "answers (Is_method ?e x n) n3 x (occurs x i) (occurs x i)" by simp
      show ?thesis
      proof (rule answersI)
        from answers_le [OF l] le1 le2 le3 show "n \<le> snd (Is_method ?e x n)" by simp
      next
        assume o: "olderThan x n" and fs: "fst (Is_method ?e x n)"
        from o le1 le2 le3 have o2: "olderThan x n2" and o3: "olderThan x n3"
          by (auto intro: olderThan_mono)
        from answers_may [OF l o3 fs] have "occurs x i" .
        from errors_Unwrap_occurs_sound [OF _ o2 this, of ?e n3] ue i
        show "occurs x ?e" by simp
      next
        assume "occursInSides x ?e"
        then have fb: "occurs x f \<or> occurs x b" by simp
        have "occurs x i"
        proof (cases "occurs x b")
          case True
          with w i show ?thesis by (cases "errors_Unwrap f n2") (auto split: option.splits)
        next
          case False
          with fb have of: "occurs x f" by simp
          have nw: "goType f \<noteq> T_wrapper"
          proof
            assume "goType f = T_wrapper"
            from occursInSides_wrapper [OF this of nf] have "occursInSides x f" .
            from answers_must [OF a1 this] r1 show False by simp
          qed
          obtain rf m' where uf: "errors_Unwrap f n2 = (rf, m')" by (cases "errors_Unwrap f n2")
          show ?thesis
          proof (cases rf)
            case None
            from errors_Unwrap_leaf [of f n2 m' x] uf None of nf ncf show ?thesis by simp
          next
            case (Some f1)
            from errors_Unwrap_occurs_complete [of f n2 f1 m' x] uf Some of nf nw
            have "occurs x f1" by simp
            with w i uf Some show ?thesis by auto
          qed
        qed
        from answers_must [OF l this] show "fst (Is_method ?e x n)" .
      qed
    qed
  qed
qed

lemma method_answers:
  assumes IHi: "\<And>e' x n. size e' < size e \<Longrightarrow> noCause e' \<Longrightarrow>
                  answers (errors_Is e' x n) n x (occurs x e') (occurs x e')"
    and IHm: "\<And>e' x n. size e' < size e \<Longrightarrow> noCause e' \<Longrightarrow>
                  answers (Is_method e' x n) n x (occurs x e') (occursInSides x e')"
    and nc: "noCause e"
  shows "answers (Is_method e x n) n x (occurs x e) (occursInSides x e)"
proof (cases e)
  case (wrapper a f b)
  show ?thesis unfolding wrapper
  proof (rule method_answers_wrapper)
    fix e' y k assume "size e' < size (wrapper a f b)" and "noCause e'"
    then show "answers (errors_Is e' y k) k y (occurs y e') (occurs y e')"
      using IHi [of e' y k] wrapper by simp
  next
    fix e' y k assume "size e' < size (wrapper a f b)" and "noCause e'"
    then show "answers (Is_method e' y k) k y (occurs y e') (occursInSides y e')"
      using IHm [of e' y k] wrapper by simp
  next
    from nc wrapper show "noCause (wrapper a f b)" by simp
  qed
next
  case (withStack a c st sk)
  have "answers (Is_method c x n) n x (occurs x c) (occursInSides x c)"
    using IHm [of c x n] withStack nc by simp
  then show ?thesis
    by (rule method_answers_cause) (simp_all add: withStack)
next
  case (withFields a fs c st sk)
  have "answers (Is_method c x n) n x (occurs x c) (occursInSides x c)"
    using IHm [of c x n] withFields nc by simp
  then show ?thesis
    by (rule method_answers_cause) (simp_all add: withFields)
qed (simp_all add: answers_def)


text \<open>
  One step of a chain walk: the value is compared with the target, asked through its
  method, and the walk goes on with what it unwraps to.
\<close>

lemma walk_answers:
  assumes M: "answers (Is_method e x n) n x (occurs x e) (occursInSides x e)"
    and nc: "noCause e"
    and rest: "\<And>e' n1 n2. errors_Unwrap e n1 = (Some e', n2) \<Longrightarrow>
                 answers (walk (Some e') n2) n2 x (occurs x e') (occurs x e')"
    and walk_def: "\<And>r1 n1. (if hasIs e then Is_method e x n else (False, n)) = (r1, n1) \<Longrightarrow>
                 result =
                   (if equal_errors e x then (True, n)
                    else if r1 then (True, n1)
                    else (case errors_Unwrap e n1 of
                            (None, n2) \<Rightarrow> (False, n2)
                          | (Some e', n2) \<Rightarrow> walk (Some e') n2))"
  shows "answers result n x (occurs x e) (occurs x e)"
proof -
  obtain r1 n1 where d1: "(if hasIs e then Is_method e x n else (False, n)) = (r1, n1)"
    by (cases "if hasIs e then Is_method e x n else (False, n)")
  note res = walk_def [OF d1]
  have a1: "answers (r1, n1) n x (occurs x e) (occursInSides x e)"
    using delegate_answers [OF M] d1 by simp
  from answers_le [OF a1] have le1: "n \<le> n1" by simp
  show ?thesis
  proof (cases "equal_errors e x")
    case True
    with res occurs_self [OF True] show ?thesis by (simp add: answers_def)
  next
    case ne: False
    show ?thesis
    proof (cases r1)
      case True
      with ne res have "result = (True, n1)" by simp
      moreover from True a1 have "olderThan x n \<Longrightarrow> occurs x e" by (simp add: answers_def)
      ultimately show ?thesis using le1 by (auto simp: answers_def)
    next
      case r1: False
      have nw: "occurs x e \<Longrightarrow> goType e \<noteq> T_wrapper"
      proof
        assume "occurs x e" and "goType e = T_wrapper"
        from occursInSides_wrapper [OF this(2) this(1) ne] have "occursInSides x e" .
        from answers_must [OF a1 this] r1 show False by simp
      qed
      obtain ru n2 where u: "errors_Unwrap e n1 = (ru, n2)" by (cases "errors_Unwrap e n1")
      from errors_Unwrap_mono [of n1 e] u have le2: "n1 \<le> n2" by simp
      show ?thesis
      proof (cases ru)
        case None
        with ne r1 u res have r: "result = (False, n2)" by simp
        from errors_Unwrap_leaf [of e n1 n2 x] u None ne nc have "\<not> occurs x e" by simp
        with r le1 le2 show ?thesis by (simp add: answers_def)
      next
        case (Some e')
        with ne r1 u res have r: "result = walk (Some e') n2" by simp
        from rest [of n1 e' n2] u Some
        have b: "answers (walk (Some e') n2) n2 x (occurs x e') (occurs x e')" by simp
        show ?thesis
        proof (rule answersI)
          from answers_le [OF b] le1 le2 r show "n \<le> snd result" by simp
        next
          assume o: "olderThan x n" and f: "fst result"
          from o le1 le2 have o1: "olderThan x n1" and o2: "olderThan x n2"
            by (auto intro: olderThan_mono)
          from answers_may [OF b o2] f r have "occurs x e'" by simp
          from errors_Unwrap_occurs_sound [OF _ o1 this, of e n2] u Some
          show "occurs x e" by simp
        next
          assume oc: "occurs x e"
          from errors_Unwrap_occurs_complete [of e n1 e' n2 x] u Some oc ne nw [OF oc]
          have "occurs x e'" by simp
          from answers_must [OF b this] r show "fst result" by simp
        qed
      qed
    qed
  qed
qed

lemma Is_answers:
  "noCause e \<Longrightarrow>
   answers (errors_Is e x n) n x (occurs x e) (occurs x e) \<and>
   answers (Is_method e x n) n x (occurs x e) (occursInSides x e)"
proof (induction "size e" arbitrary: e x n rule: less_induct)
  case less
  note nc = less.prems
  have M: "answers (Is_method e y k) k y (occurs y e) (occursInSides y e)" for y k
  proof (rule method_answers [OF _ _ nc])
    fix e' z j assume "size e' < size e" and "noCause e'"
    then show "answers (errors_Is e' z j) j z (occurs z e') (occurs z e')"
      using less.hyps [of e' z j] by simp
  next
    fix e' z j assume "size e' < size e" and "noCause e'"
    then show "answers (Is_method e' z j) j z (occurs z e') (occursInSides z e')"
      using less.hyps [of e' z j] by simp
  qed
  have "answers (errors_Is e x n) n x (occurs x e) (occurs x e)"
  proof (rule walk_answers [where walk = "\<lambda>eo k. case eo of Some e' \<Rightarrow> errors_Is e' x k
                                                        | None \<Rightarrow> (False, k)", OF M nc])
    fix e' n1 n2 assume u: "errors_Unwrap e n1 = (Some e', n2)"
    then have "size e' < size e" by (rule errors_Unwrap_size)
    moreover from u nc have "noCause e'" by (rule noCause_errors_Unwrap)
    ultimately have "answers (errors_Is e' x n2) n2 x (occurs x e') (occurs x e')"
      using less.hyps [of e' x n2] by simp
    then
    show "answers (case Some e' of Some e' \<Rightarrow> errors_Is e' x n2 | None \<Rightarrow> (False, n2)) n2 x
            (occurs x e') (occurs x e')" by simp
  next
    fix r1 n1 assume "(if hasIs e then Is_method e x n else (False, n)) = (r1, n1)"
    then show "errors_Is e x n =
       (if equal_errors e x then (True, n)
        else if r1 then (True, n1)
        else case errors_Unwrap e n1 of (None, n2) \<Rightarrow> (False, n2)
             | (Some e', n2) \<Rightarrow> (case Some e' of Some e' \<Rightarrow> errors_Is e' x n2
                                  | None \<Rightarrow> (False, n2)))"
      by (subst errors_Is.simps) (auto simp: Comparable_def split: option.splits prod.splits)
  qed
  with M show ?case by simp
qed

lemma Is_loop_answers:
  "noCause e \<Longrightarrow> answers (Is_loop (Some e) x n) n x (occurs x e) (occurs x e)"
proof (induction "size e" arbitrary: e n rule: less_induct)
  case less
  note nc = less.prems
  have M: "answers (Is_method e x n) n x (occurs x e) (occursInSides x e)"
    using Is_answers [OF nc] by simp
  show ?case
  proof (rule walk_answers [where walk = "\<lambda>eo k. Is_loop eo x k", OF M nc])
    fix e' n1 n2 assume u: "errors_Unwrap e n1 = (Some e', n2)"
    then have "size e' < size e" by (rule errors_Unwrap_size)
    moreover from u nc have "noCause e'" by (rule noCause_errors_Unwrap)
    ultimately show "answers (Is_loop (Some e') x n2) n2 x (occurs x e') (occurs x e')"
      by (rule less.hyps)
  next
    fix r1 n1 assume "(if hasIs e then Is_method e x n else (False, n)) = (r1, n1)"
    then show "Is_loop (Some e) x n =
       (if equal_errors e x then (True, n)
        else if r1 then (True, n1)
        else case errors_Unwrap e n1 of (None, n2) \<Rightarrow> (False, n2)
             | (Some e', n2) \<Rightarrow> Is_loop (Some e') x n2)"
      by (auto simp: tryDelegateToIsMethod_def noCause_UnwrapOnce [OF nc]
            split: option.splits prod.splits)
  qed
qed

text \<open>
  Hence the combined error answers for both sides: let \<open>a\<close> and \<open>b\<close> be errors without a
  type that has \<open>Cause\<close> alone, and \<open>x\<close> a target that existed before the call (no
  wrapper node allocated later is the same pointer). If \<open>Is(a, x)\<close> or \<open>Is(b, x)\<close> is
  true, then \<open>Is(With(a, b), x)\<close> is true.
\<close>

lemma Is_With_noCause:
  assumes "noCause a" and "noCause b" and "olderThan x n"
    and "fst (Is (Some a) (Some x) n) \<or> fst (Is (Some b) (Some x) n)"
  shows "fst (case With (Some a) (Some b) n of (w, n1) \<Rightarrow> Is w (Some x) n1)"
proof -
  from assms(4) have "occurs x a \<or> occurs x b"
    using answers_may [OF Is_loop_answers [OF assms(1), of x n] assms(3)]
          answers_may [OF Is_loop_answers [OF assms(2), of x n] assms(3)]
    by (auto simp: Is_def)
  then have "occurs x (wrapper n b a)" by auto
  moreover from assms(1,2) have "noCause (wrapper n b a)" by simp
  ultimately show ?thesis
    using answers_must [OF Is_loop_answers [of "wrapper n b a" x "Suc n"]]
    by (simp add: With_def Is_def)
qed

section \<open>Properties of the identity query\<close>

text \<open>
  C5. \<open>Is(With(back = a, front = b), x)\<close> is to hold whenever \<open>Is(a, x)\<close> or \<open>Is(b, x)\<close>
  holds, for \<open>x\<close> reachable by unwrapping either side. The code does not do this when
  the front is a value that gives its cause through \<open>Cause()\<close> only. Take the base
  errors \<open>a\<close> and \<open>x\<close> and let \<open>b\<close> be such a value with cause \<open>x\<close>. One step of
  \<open>UnwrapOnce\<close> leads from \<open>b\<close> to \<open>x\<close>, and \<open>Is(b, x)\<close> holds. In \<open>With(a, b)\<close> the
  method \<open>(*wrapper).Unwrap\<close> asks \<open>errors.Unwrap\<close> of the standard library for the next
  value of the front, which knows nothing of \<open>Cause()\<close>: the front counts as drained, the
  step goes to \<open>a\<close>, and \<open>x\<close> is never compared: \<open>Is(With(a, b), x)\<close> is false.
\<close>

theorem C5_Is_With_misses_cause_of_front:
  "With (Some (errorString 0 ''a'')) (Some (causeError 2 ''b: x'' (errorString 1 ''x''))) 3
     = (Some (wrapper 3 (causeError 2 ''b: x'' (errorString 1 ''x'')) (errorString 0 ''a'')), 4) \<and>
   UnwrapOnce (causeError 2 ''b: x'' (errorString 1 ''x'')) 3 = (Some (errorString 1 ''x''), 3) \<and>
   Is (Some (causeError 2 ''b: x'' (errorString 1 ''x''))) (Some (errorString 1 ''x'')) 3
     = (True, 3) \<and>
   wrapper_Unwrap (causeError 2 ''b: x'' (errorString 1 ''x'')) (errorString 0 ''a'') 4
     = (Some (errorString 0 ''a''), 4) \<and>
   Is (Some (wrapper 3 (causeError 2 ''b: x'' (errorString 1 ''x'')) (errorString 0 ''a'')))
      (Some (errorString 1 ''x'')) 4
     = (False, 4)"
proof -
  let ?a = "errorString 0 ''a''"
  let ?x = "errorString 1 ''x''"
  let ?b = "causeError 2 ''b: x'' ?x"
  have 1: "With (Some ?a) (Some ?b) 3 = (Some (wrapper 3 ?b ?a), 4)"
    by (simp add: With_def)
  have 2: "UnwrapOnce ?b 3 = (Some ?x, 3)" by simp
  have 3: "Is (Some ?b) (Some ?x) 3 = (True, 3)" by code_simp
  have 4: "wrapper_Unwrap ?b ?a 4 = (Some ?a, 4)" by simp
  have 5: "Is (Some (wrapper 3 ?b ?a)) (Some ?x) 4 = (False, 4)" by code_simp
  from 1 2 3 4 5 show ?thesis by (intro conjI)
qed

section \<open>Properties of the rendering\<close>


lemma wrapsLoop_take:
  "k \<le> length es \<Longrightarrow> wrapsLoop rt es (int k - 1) j = wrapsFrom rt j (rev (take k es))"
proof (induction k arbitrary: j)
  case 0
  show ?case by (subst wrapsLoop.simps) simp
next
  case (Suc k)
  then have k: "k < length es" by simp
  have "wrapsLoop rt es (int (Suc k) - 1) j =
        ''\<newline>Wraps: ('' @ Itoa j @ '')'' @ printEntry rt (es ! k) @ wrapsLoop rt es (int k - 1) (j + 1)"
    by (subst wrapsLoop.simps) simp
  also have "wrapsLoop rt es (int k - 1) (j + 1) = wrapsFrom rt (j + 1) (rev (take k es))"
    using Suc.IH [of "j + 1"] k by simp
  finally show ?case using k by (simp add: take_Suc_conv_app_nth)
qed

lemma typesLoop_take:
  "k \<le> length es \<Longrightarrow> typesLoop es (int k - 1) j = typesFrom j (rev (take k es))"
proof (induction k arbitrary: j)
  case 0
  show ?case by (subst typesLoop.simps) simp
next
  case (Suc k)
  then have k: "k < length es" by simp
  have "typesLoop es (int (Suc k) - 1) j =
        '' ('' @ Itoa j @ '') '' @ typeName (goType (es ! k)) @ typesLoop es (int k - 1) (j + 1)"
    by (subst typesLoop.simps) simp
  also have "typesLoop es (int k - 1) (j + 1) = typesFrom (j + 1) (rev (take k es))"
    using Suc.IH [of "j + 1"] k by simp
  finally show ?case using k by (simp add: take_Suc_conv_app_nth)
qed

lemma formatEntries_render:
  "fst (formatEntries rt cause n) = renderEntries rt (chain cause n)"
proof (cases "chain cause n")
  case Nil
  then have "fst (getEntries cause n) = []" by (simp add: getEntries_chain)
  with Nil show ?thesis by (cases "getEntries cause n") (simp add: formatEntries_def)
next
  case (Cons x xs)
  obtain entries n1 where g: "getEntries cause n = (entries, n1)" by (cases "getEntries cause n")
  with Cons getEntries_chain [of cause n] have e: "entries = rev xs @ [x]" by simp
  have len: "length entries = Suc (length xs)" using e by simp
  have 1: "entries ! (length entries - 1) = x" using e by (simp add: nth_append)
  have 2: "wrapsLoop rt entries (int (length entries) - 2) 2 = wrapsFrom rt 2 xs"
    using wrapsLoop_take [of "length xs" entries rt 2] e by simp
  have 3: "typesLoop entries (int (length entries) - 1) 1 = typesFrom 1 (x # xs)"
    using typesLoop_take [of "length entries" entries 1] e by simp
  have ne: "length entries \<noteq> 0" using e by simp
  have "fst (formatEntries rt cause n) =
          ''(1)'' @ printEntry rt (entries ! (length entries - 1)) @
          wrapsLoop rt entries (int (length entries) - 2) 2 @
          ''\<newline>Error types:'' @
          typesLoop entries (int (length entries) - 1) 1"
    using g ne by (simp add: formatEntries_def)
  also have "\<dots> = renderEntries rt (x # xs)"
    by (simp only: 1 2 3 renderEntries.simps)
  finally show ?thesis using Cons by simp
qed


lemma UnwrapOnce_None_indep:
  "fst (UnwrapOnce e n) = None \<Longrightarrow> fst (UnwrapOnce e m) = None"
  using UnwrapOnce_forget [of e e n m] by simp

lemma chain_last_root:
  "fst (UnwrapOnce (last (chain (Some c) n)) m) = None"
proof (induction "size c" arbitrary: c n rule: less_induct)
  case less
  obtain r n1 where u: "UnwrapOnce c n = (r, n1)" by (cases "UnwrapOnce c n")
  show ?case
  proof (cases r)
    case None
    with u have "fst (UnwrapOnce c n) = None" by simp
    then have "fst (UnwrapOnce c m) = None" by (rule UnwrapOnce_None_indep)
    with None u show ?thesis by (simp del: UnwrapOnce.simps)
  next
    case (Some c')
    with u have "size c' < size c" by (auto dest: UnwrapOnce_size)
    from less.hyps [OF this, of n1] Some u show ?thesis by (simp del: UnwrapOnce.simps)
  qed
qed

text \<open>
  C4 (amended). The verbose rendering of an annotated node numbers the chain of its cause
  from the outside in: the cause itself is printed first as \<open>(1)\<close>, each value reached
  by one more unwrap step follows as \<open>Wraps: (2)\<close>, \<open>Wraps: (3)\<close> and so on, and the
  root cause, which has no further unwrap step, comes last. The footer \<open>Error types:\<close>
  lists the types of the same entries under the same numbers. The stack of the annotated
  node itself follows the footer.
\<close>

theorem C4_render_outermost_first:
  "fst (Format rt (withStack a cause st sk) n) =
     renderEntries rt (chain (Some cause) n) @ outputStackTrace False (StackTrace_String rt st) \<and>
   fst (formatEntries rt (Some cause) n) = renderEntries rt (chain (Some cause) n) \<and>
   hd (chain (Some cause) n) = cause \<and>
   fst (UnwrapOnce (last (chain (Some cause) n)) m) = None"
proof -
  have "fst (Format rt (withStack a cause st sk) n) =
        fst (formatEntries rt (Some cause) n) @ outputStackTrace False (StackTrace_String rt st)"
    by (cases "formatEntries rt (Some cause) n") simp
  then have 1: "fst (Format rt (withStack a cause st sk) n) =
     renderEntries rt (chain (Some cause) n) @ outputStackTrace False (StackTrace_String rt st)"
    by (simp only: formatEntries_render)
  have 2: "fst (formatEntries rt (Some cause) n) = renderEntries rt (chain (Some cause) n)"
    by (rule formatEntries_render)
  have 3: "hd (chain (Some cause) n) = cause" by simp
  have 4: "fst (UnwrapOnce (last (chain (Some cause) n)) m) = None"
    by (rule chain_last_root)
  from 1 2 3 4 show ?thesis by (intro conjI)
qed

text \<open>
  C4 as stated says that the root cause is printed first as \<open>(1)\<close> and the outermost
  value last. For \<open>With(New("one"), New("two"))\<close> the chain is the wrapper node and then
  \<open>one\<close>; the code prints the wrapper node as \<open>(1)\<close> and the root cause \<open>one\<close> as
  \<open>(2)\<close>, which is not the rendering that starts from the root cause.
\<close>

theorem C4_render_root_first_counterexample:
  "fst (formatEntries noFrames (Some (wrapper 2 (errorString 1 ''two'') (errorString 0 ''one''))) 3)
     = ''(1) two: one\<newline>Wraps: (2) one\<newline>Error types: (1) *errors.wrapper (2) *errors.errorString'' \<and>
   fst (formatEntries noFrames (Some (wrapper 2 (errorString 1 ''two'') (errorString 0 ''one''))) 3)
     \<noteq> renderEntries noFrames
         (rev (chain (Some (wrapper 2 (errorString 1 ''two'') (errorString 0 ''one''))) 3))"
  by (simp add: formatEntries_render printEntry_def HasPrefix_def Itoa_def utoa.simps digit_def)

theorem C4_render_outermost_first_witness:
  "fst (Format noFrames (withStack 3 (wrapper 2 (errorString 1 ''two'') (errorString 0 ''one'')) [] False) 4)
     = ''(1) two: one\<newline>Wraps: (2) one\<newline>Error types: (1) *errors.wrapper (2) *errors.errorString''"
  using C4_render_outermost_first [of noFrames 3 "wrapper 2 (errorString 1 ''two'') (errorString 0 ''one'')" "[]" False 4 0]
  by (simp add: printEntry_def HasPrefix_def Itoa_def utoa.simps digit_def
        outputStackTrace_def StackTrace_String_def noFrames_def TrimSpace_def TrimLeft.simps TrimRight.simps spaceSeqs_def)


section \<open>The fields of chains without combinator nodes\<close>

text \<open>
  For a chain without combinator nodes, \<open>GetFields\<close> gives the merge of the mappings of
  the field-carrying values of the chain, a value further out overriding those further in.
\<close>


lemma map_of_assignAll:
  "distinct (map fst fs) \<Longrightarrow> map_of (assignAll r fs) = map_of r ++ map_of fs"
proof (induction fs arbitrary: r)
  case Nil
  show ?case by (simp add: assignAll_def)
next
  case (Cons kv fs)
  obtain k v where kv: "kv = (k, v)" by (cases kv)
  from Cons.prems kv have d: "distinct (map fst fs)" and nk: "k \<notin> fst ` set fs" by auto
  have "assignAll r (kv # fs) = assignAll (AList.update k v r) fs"
    by (simp add: assignAll_def kv)
  also have "map_of \<dots> = map_of (AList.update k v r) ++ map_of fs"
    using Cons.IH [OF d] by simp
  also have "\<dots> = (map_of r)(k \<mapsto> v) ++ map_of fs" by (simp add: update_conv')
  also have "\<dots> = map_of r ++ map_of (kv # fs)"
    using nk kv by (simp add: map_add_upd_left dom_map_of_conv_image_fst)
  finally show ?case .
qed

lemma overrideAll_snoc: "overrideAll (l @ [fs]) = overrideAll l ++ map_of fs"
  by (simp add: overrideAll_def)

lemma overrideAll_snoc_again: "overrideAll (l @ [fs]) ++ map_of fs = overrideAll (l @ [fs])"
  unfolding overrideAll_snoc by (rule ext) (simp add: map_add_def split: option.splits)

lemma getFields_loop_append:
  "getFields_loop (xs @ ys) r n =
     (case getFields_loop xs r n of (r', n') \<Rightarrow> getFields_loop ys r' n')"
proof (induction xs arbitrary: r n)
  case Nil
  show ?case by simp
next
  case (Cons x xs)
  obtain v n1 where a: "As_loop (Some x) T_withFields n = (v, n1)"
    by (cases "As_loop (Some x) T_withFields n")
  show ?case
  proof (cases v)
    case None
    with a Cons.IH [of r n1] show ?thesis by simp
  next
    case (Some w)
    with a Cons.IH show ?thesis by (cases w) simp_all
  qed
qed

lemma noCombinator_Unwrap:
  "noCombinator e \<Longrightarrow> snd (errors_Unwrap e n) = n"
  by (cases e) simp_all

lemma firstFields_withFields:
  "firstFields e = Some w \<Longrightarrow> \<exists>a fs c st sk l. w = withFields a fs c st sk \<and>
       fieldLayers e = l @ [fs] \<and> fieldLayers w = fieldLayers e \<and> (noCombinator e \<longrightarrow> noCombinator w)"
  by (induction e) auto

lemma firstFields_None: "noCombinator e \<Longrightarrow> firstFields e = None \<Longrightarrow> fieldLayers e = []"
  by (induction e) auto

lemma As_method_linear:
  "noCombinator e \<Longrightarrow>
   \<exists>r. As_method e T_withFields n = (r, n) \<and>
       (r = None \<or> (\<exists>c. fst (errors_Unwrap e n) = Some c \<and> r = firstFields c \<and> r \<noteq> None))"
proof (induction e)
  case (withStack a c st sk)
  show ?case
  proof (cases "AssignableTo c T_withFields")
    case True
    then have "firstFields c = Some c" by (cases c) (auto simp: AssignableTo_def)
    with True show ?thesis by simp
  next
    case na: False
    show ?thesis
    proof (cases "hasAs c")
      case True
      from withStack.IH withStack.prems obtain r where
        r: "As_method c T_withFields n = (r, n)"
        and rr: "r = None \<or> (\<exists>c'. fst (errors_Unwrap c n) = Some c' \<and> r = firstFields c' \<and> r \<noteq> None)"
        by auto
      have "r = None \<or> (r = firstFields c \<and> r \<noteq> None)"
        using rr na withStack.prems by (cases c) (auto simp: AssignableTo_def)
      with na True r show ?thesis by auto
    next
      case False
      with na show ?thesis by simp
    qed
  qed
next
  case (withFields a fs c st sk)
  show ?case
  proof (cases "AssignableTo c T_withFields")
    case True
    then have "firstFields c = Some c" by (cases c) (auto simp: AssignableTo_def)
    with True show ?thesis by simp
  next
    case na: False
    show ?thesis
    proof (cases "hasAs c")
      case True
      from withFields.IH withFields.prems obtain r where
        r: "As_method c T_withFields n = (r, n)"
        and rr: "r = None \<or> (\<exists>c'. fst (errors_Unwrap c n) = Some c' \<and> r = firstFields c' \<and> r \<noteq> None)"
        by auto
      have "r = None \<or> (r = firstFields c \<and> r \<noteq> None)"
        using rr na withFields.prems by (cases c) (auto simp: AssignableTo_def)
      with na True r show ?thesis by auto
    next
      case False
      with na show ?thesis by simp
    qed
  qed
qed simp_all

lemma As_loop_linear:
  "noCombinator e \<Longrightarrow> As_loop (Some e) T_withFields n = (firstFields e, n)"
proof (induction e)
  case (withFields a fs c st sk)
  show ?case by (simp add: AssignableTo_def)
next
  case (withStack a c st sk)
  from As_method_linear [OF withStack.prems, of n] obtain r where
    r: "As_method (withStack a c st sk) T_withFields n = (r, n)"
    and rr: "r = None \<or> (r = firstFields c \<and> r \<noteq> None)" by auto
  from withStack have ih: "As_loop (Some c) T_withFields n = (firstFields c, n)" by simp
  from rr show ?case
  proof
    assume "r = None"
    with r ih show ?thesis by (simp add: AssignableTo_def)
  next
    assume "r = firstFields c \<and> r \<noteq> None"
    then obtain v where "r = Some v" "firstFields c = Some v" by auto
    with r show ?thesis by (simp add: AssignableTo_def)
  qed
next
  case (wrapError a msg c)
  then show ?case by (simp add: AssignableTo_def)
qed (simp_all add: AssignableTo_def)


lemma chain_linear:
  "chain (Some (withFields a fs c st sk)) n = withFields a fs c st sk # chain (Some c) n"
  "chain (Some (withStack a c st sk)) n = withStack a c st sk # chain (Some c) n"
  "chain (Some (wrapError a msg c)) n = wrapError a msg c # chain (Some c) n"
  "chain (Some (causeError a msg c)) n = causeError a msg c # chain (Some c) n"
  "chain (Some (errorString a s)) n = [errorString a s]"
  "chain (Some (valueError T s)) n = [valueError T s]"
  by simp_all

lemma getEntries_linear: "noCombinator e \<Longrightarrow> snd (getEntries_loop (Some e) acc n) = n"
  by (induction e arbitrary: acc) simp_all

lemma entryLayers_linear: "noCombinator e \<Longrightarrow> entryLayers (Some e) n = fieldLayers e"
  unfolding entryLayers_def getEntries_chain
  by (induction e) (simp_all add: chain_linear del: chain.simps)

text \<open>One more entry of the chain, which asks \<open>As\<close> and stores what it finds.\<close>

lemma getFields_loop_entry:
  assumes nc: "noCombinator e"
    and d: "\<forall>fs \<in> set (fieldLayers e). distinct (map fst fs)"
    and m: "map_of res = map_of r ++ overrideAll (fieldLayers e)"
  shows "\<exists>res'. getFields_loop [e] res n = (res', n) \<and>
                map_of res' = map_of r ++ overrideAll (fieldLayers e)"
proof (cases "firstFields e")
  case None
  with As_loop_linear [OF nc, of n] m show ?thesis by simp
next
  case (Some w)
  from firstFields_withFields [OF Some] obtain a fs c st sk l where
    w: "w = withFields a fs c st sk" and l: "fieldLayers e = l @ [fs]" by blast
  from d l have "distinct (map fst fs)" by simp
  then have "map_of (assignAll res fs) = map_of res ++ map_of fs" by (rule map_of_assignAll)
  also have "\<dots> = map_of r ++ (overrideAll (l @ [fs]) ++ map_of fs)"
    using m l by (simp add: map_add_assoc)
  also have "\<dots> = map_of r ++ overrideAll (fieldLayers e)"
    unfolding overrideAll_snoc_again l ..
  finally have "map_of (assignAll res fs) = map_of r ++ overrideAll (fieldLayers e)" .
  moreover have "getFields_loop [e] res n = (assignAll res fs, n)"
    using As_loop_linear [OF nc, of n] Some w by simp
  ultimately show ?thesis by simp
qed

lemma getFields_loop_linear:
  "noCombinator e \<Longrightarrow> \<forall>fs \<in> set (fieldLayers e). distinct (map fst fs) \<Longrightarrow>
   \<exists>res. getFields_loop (rev (chain (Some e) n)) r n = (res, n) \<and>
         map_of res = map_of r ++ overrideAll (fieldLayers e)"
proof (induction e)
  case (errorString a s)
  have "map_of r = map_of r ++ overrideAll (fieldLayers (errorString a s))"
    by (simp add: overrideAll_def)
  from getFields_loop_entry [OF errorString.prems this, of n]
  show ?case by (simp only: chain_linear rev.simps append_Nil)
next
  case (valueError T s)
  have "map_of r = map_of r ++ overrideAll (fieldLayers (valueError T s))"
    by (simp add: overrideAll_def)
  from getFields_loop_entry [OF valueError.prems this, of n]
  show ?case by (simp only: chain_linear rev.simps append_Nil)
next
  case (wrapError a msg c)
  from wrapError obtain res where
    1: "getFields_loop (rev (chain (Some c) n)) r n = (res, n)"
    and 2: "map_of res = map_of r ++ overrideAll (fieldLayers (wrapError a msg c))" by auto
  from getFields_loop_entry [OF wrapError.prems 2, of n] 1
  show ?case by (simp only: chain_linear rev.simps getFields_loop_append) simp
next
  case (causeError a msg c)
  from causeError obtain res where
    1: "getFields_loop (rev (chain (Some c) n)) r n = (res, n)"
    and 2: "map_of res = map_of r ++ overrideAll (fieldLayers (causeError a msg c))" by auto
  from getFields_loop_entry [OF causeError.prems 2, of n] 1
  show ?case by (simp only: chain_linear rev.simps getFields_loop_append) simp
next
  case (withStack a c st sk)
  from withStack obtain res where
    1: "getFields_loop (rev (chain (Some c) n)) r n = (res, n)"
    and 2: "map_of res = map_of r ++ overrideAll (fieldLayers (withStack a c st sk))" by auto
  from getFields_loop_entry [OF withStack.prems 2, of n] 1
  show ?case by (simp only: chain_linear rev.simps getFields_loop_append) simp
next
  case (withFields a fs c st sk)
  from withFields obtain res where
    1: "getFields_loop (rev (chain (Some c) n)) r n = (res, n)"
    and 2: "map_of res = map_of r ++ overrideAll (fieldLayers c)" by auto
  from withFields.prems have "distinct (map fst fs)" by simp
  then have "map_of (assignAll res fs) = map_of res ++ map_of fs" by (rule map_of_assignAll)
  with 2 have "map_of (assignAll res fs) =
                map_of r ++ overrideAll (fieldLayers (withFields a fs c st sk))"
    by (simp add: overrideAll_snoc map_add_assoc)
  moreover have "getFields_loop [withFields a fs c st sk] res n = (assignAll res fs, n)"
    by (simp add: AssignableTo_def)
  ultimately show ?case using 1
    by (simp only: chain_linear rev.simps getFields_loop_append) simp
next
  case (wrapper a f b)
  then show ?case by simp
qed

lemma GetFields_linear:
  assumes nc: "noCombinator e"
    and d: "\<forall>fs \<in> set (fieldLayers e). distinct (map fst fs)"
  shows "map_of (fst (GetFields (Some e) n)) = overrideAll (fieldLayers e)"
proof (cases "firstFields e")
  case None
  with As_loop_linear [OF nc, of n] firstFields_None [OF nc]
  show ?thesis by (simp add: GetFields_def overrideAll_def)
next
  case (Some w)
  from firstFields_withFields [OF Some] nc obtain a fs c st sk l where
    w: "w = withFields a fs c st sk" and l: "fieldLayers e = l @ [fs]"
    and lw: "fieldLayers w = fieldLayers e" and ncw: "noCombinator w" by blast
  from d lw have dw: "\<forall>fs \<in> set (fieldLayers w). distinct (map fst fs)" by simp
  obtain entries n1 where g: "getEntries (Some w) n = (entries, n1)"
    by (cases "getEntries (Some w) n")
  with getEntries_chain [of "Some w" n] have en: "entries = rev (chain (Some w) n)" by simp
  from g getEntries_linear [OF ncw, of "[]" n] have n1: "n1 = n" by (simp add: getEntries_def)
  from getFields_loop_linear [OF ncw dw, of n "[]"] obtain res where
    1: "getFields_loop entries [] n1 = (res, n)" and 2: "map_of res = overrideAll (fieldLayers w)"
    unfolding en n1 by auto
  from d l have "distinct (map fst fs)" by simp
  then have "map_of (assignAll res fs) = map_of res ++ map_of fs" by (rule map_of_assignAll)
  also have "\<dots> = overrideAll (fieldLayers e)"
    unfolding 2 lw l by (rule overrideAll_snoc_again)
  finally have "map_of (assignAll res fs) = overrideAll (fieldLayers e)" .
  moreover have "fst (GetFields (Some e) n) = assignAll res fs"
    using As_loop_linear [OF nc, of n] Some w g 1 by (simp add: GetFields_def)
  ultimately show ?thesis by simp
qed

lemma overrideAll_outermost:
  "ls = inner @ fs # outer \<Longrightarrow> map_of fs k = Some v \<Longrightarrow> \<forall>g \<in> set outer. map_of g k = None \<Longrightarrow>
   overrideAll ls k = Some v"
proof (induction outer arbitrary: ls rule: rev_induct)
  case Nil
  then show ?case using overrideAll_snoc [of inner fs] by (simp add: map_add_def)
next
  case (snoc g outer)
  from snoc.prems have "overrideAll (inner @ fs # outer) k = Some v" and "map_of g k = None"
    using snoc.IH [of "inner @ fs # outer"] by auto
  moreover have "ls = (inner @ fs # outer) @ [g]" using snoc.prems by simp
  ultimately show ?case by (simp only: overrideAll_snoc) (simp add: map_add_def)
qed

lemma wrapLayers_linear:
  "noCombinator e \<Longrightarrow>
   \<exists>e' n'. wrapLayers rt (Some e) fss n = (Some e', n') \<and> noCombinator e' \<and>
           fieldLayers e' = fieldLayers e @ fss"
proof (induction fss arbitrary: e n)
  case Nil
  then show ?case by simp
next
  case (Cons fs fss)
  obtain prevStack n0 where p: "getLastStack (Some e) n = (prevStack, n0)"
    by (cases "getLastStack (Some e) n")
  obtain st sk where el: "ElideSharedStackSuffix prevStack (Callers rt (1 + 2)) = (st, sk)"
    by (cases "ElideSharedStackSuffix prevStack (Callers rt (1 + 2))")
  let ?e1 = "withFields n0 fs e (case st of Some s \<Rightarrow> s | None \<Rightarrow> []) sk"
  have w: "WrapWithFields rt (Some e) (Some fs) n = (Some ?e1, Suc n0)"
    using p el by (simp add: WrapWithFields_def WrapWithFieldsAndDepth_def Let_def)
  have l1: "noCombinator ?e1" using Cons.prems by simp
  from Cons.IH [OF l1, of "Suc n0"] w show ?case by auto
qed


text \<open>
  On a key collision the value closer to the outermost wrap wins: a key of a mapping that
  no mapping further out has gets the value of that mapping.
\<close>

lemma GetFields_outermost_wins:
  assumes "noCombinator e"
    and "\<forall>fs \<in> set (entryLayers (Some e) n). distinct (map fst fs)"
  shows "map_of (fst (GetFields (Some e) n)) = overrideAll (entryLayers (Some e) n) \<and>
         (\<forall>inner fs outer k v.
            entryLayers (Some e) n = inner @ fs # outer \<longrightarrow> map_of fs k = Some v \<longrightarrow>
            (\<forall>g \<in> set outer. map_of g k = None) \<longrightarrow>
            map_of (fst (GetFields (Some e) n)) k = Some v)"
proof -
  note el = entryLayers_linear [OF assms(1), of n]
  from assms(2) have d: "\<forall>fs \<in> set (fieldLayers e). distinct (map fst fs)" by (simp add: el)
  have g: "map_of (fst (GetFields (Some e) n)) = overrideAll (entryLayers (Some e) n)"
    unfolding el by (rule GetFields_linear [OF assms(1) d])
  have "map_of (fst (GetFields (Some e) n)) k = Some v"
    if "entryLayers (Some e) n = inner @ fs # outer" "map_of fs k = Some v"
       "\<forall>g \<in> set outer. map_of g k = None"
    for inner fs outer k v
    unfolding g using that by (rule overrideAll_outermost)
  with g show ?thesis by blast
qed

section \<open>Reading the fields of a combined error\<close>

text \<open>
  The scenario of the tests: a base error annotated with the fields \<open>b\<close> and \<open>msg\<close>, and
  the result annotated with \<open>c\<close> and \<open>msg\<close>. All three keys are reported, and \<open>msg\<close> has
  the value of the outer annotation.
\<close>

lemma GetFields_two_layers:
  "wrapLayers noFrames (Some (errorString 0 ''one''))
     [[(''b'', AnyString ''true''), (''msg'', AnyString ''two'')],
      [(''c'', AnyString ''true''), (''msg'', AnyString ''three'')]] 1
     = (Some (withFields 2 [(''c'', AnyString ''true''), (''msg'', AnyString ''three'')]
               (withFields 1 [(''b'', AnyString ''true''), (''msg'', AnyString ''two'')]
                  (errorString 0 ''one'') [] False) [] False), 3) \<and>
   fst (GetFields
     (Some (withFields 2 [(''c'', AnyString ''true''), (''msg'', AnyString ''three'')]
               (withFields 1 [(''b'', AnyString ''true''), (''msg'', AnyString ''two'')]
                  (errorString 0 ''one'') [] False) [] False)) 3)
     = [(''b'', AnyString ''true''), (''msg'', AnyString ''three''), (''c'', AnyString ''true'')]"
proof -
  let ?f1 = "[(''b'', AnyString ''true''), (''msg'', AnyString ''two'')]"
  let ?f2 = "[(''c'', AnyString ''true''), (''msg'', AnyString ''three'')]"
  let ?e = "withFields 2 ?f2 (withFields 1 ?f1 (errorString 0 ''one'') [] False) [] False"
  have 1: "wrapLayers noFrames (Some (errorString 0 ''one'')) [?f1, ?f2] 1 = (Some ?e, 3)"
    by code_simp
  have 2: "fst (GetFields (Some ?e) 3)
             = [(''b'', AnyString ''true''), (''msg'', AnyString ''three''),
                (''c'', AnyString ''true'')]"
    by code_simp
  from 1 2 show ?thesis by (intro conjI)
qed

text \<open>
  C8. Reading all fields of a chain is to merge the mappings of its field-carrying
  entries, the entry closer to the outermost wrap winning a key that several entries
  have. The code does not do this for a combinator node over two annotated errors. Let
  the front carry the key \<open>a\<close> and the back the key \<open>b\<close>, and let \<open>With\<close> combine them.
  The back is an entry of the chain of the combined error. \<open>GetFields\<close> asks \<open>As\<close> for
  the first \<open>*withFields\<close>, which is the front, and \<open>getFields\<close> then reads the chain of
  the front only: the mapping returned has the key \<open>a\<close> and not the key \<open>b\<close>, while the
  merge over the entries of the chain has \<open>b\<close>.
\<close>

theorem C8_GetFields_drops_back_fields:
  "WrapWithFields noFrames (Some (errorString 0 ''x'')) (Some [(''a'', AnyString ''true'')]) 1
     = (Some (withFields 1 [(''a'', AnyString ''true'')] (errorString 0 ''x'') [] False), 2) \<and>
   WrapWithFields noFrames (Some (errorString 2 ''y'')) (Some [(''b'', AnyString ''true'')]) 3
     = (Some (withFields 3 [(''b'', AnyString ''true'')] (errorString 2 ''y'') [] False), 4) \<and>
   With (Some (withFields 3 [(''b'', AnyString ''true'')] (errorString 2 ''y'') [] False))
        (Some (withFields 1 [(''a'', AnyString ''true'')] (errorString 0 ''x'') [] False)) 4
     = (Some (wrapper 4
          (withFields 1 [(''a'', AnyString ''true'')] (errorString 0 ''x'') [] False)
          (withFields 3 [(''b'', AnyString ''true'')] (errorString 2 ''y'') [] False)), 5) \<and>
   withFields 3 [(''b'', AnyString ''true'')] (errorString 2 ''y'') [] False
     \<in> set (fst (getEntries
          (Some (wrapper 4
            (withFields 1 [(''a'', AnyString ''true'')] (errorString 0 ''x'') [] False)
            (withFields 3 [(''b'', AnyString ''true'')] (errorString 2 ''y'') [] False))) 5)) \<and>
   fst (GetFields
     (Some (wrapper 4
       (withFields 1 [(''a'', AnyString ''true'')] (errorString 0 ''x'') [] False)
       (withFields 3 [(''b'', AnyString ''true'')] (errorString 2 ''y'') [] False))) 5)
     = [(''a'', AnyString ''true'')] \<and>
   map_of (fst (GetFields
     (Some (wrapper 4
       (withFields 1 [(''a'', AnyString ''true'')] (errorString 0 ''x'') [] False)
       (withFields 3 [(''b'', AnyString ''true'')] (errorString 2 ''y'') [] False))) 5)) ''b''
     = None \<and>
   overrideAll (entryLayers
     (Some (wrapper 4
       (withFields 1 [(''a'', AnyString ''true'')] (errorString 0 ''x'') [] False)
       (withFields 3 [(''b'', AnyString ''true'')] (errorString 2 ''y'') [] False))) 5) ''b''
     = Some (AnyString ''true'')"
proof -
  let ?f = "withFields 1 [(''a'', AnyString ''true'')] (errorString 0 ''x'') [] False"
  let ?b = "withFields 3 [(''b'', AnyString ''true'')] (errorString 2 ''y'') [] False"
  let ?w = "wrapper 4 ?f ?b"
  have 1: "WrapWithFields noFrames (Some (errorString 0 ''x'')) (Some [(''a'', AnyString ''true'')]) 1
             = (Some ?f, 2)"
    by code_simp
  have 2: "WrapWithFields noFrames (Some (errorString 2 ''y'')) (Some [(''b'', AnyString ''true'')]) 3
             = (Some ?b, 4)"
    by code_simp
  have 3: "With (Some ?b) (Some ?f) 4 = (Some ?w, 5)" by (simp add: With_def)
  have 4: "fst (getEntries (Some ?w) 5)
             = [errorString 2 ''y'', ?b, wrapper 5 (errorString 0 ''x'') ?b, ?w]"
    by code_simp
  have 5: "?b \<in> set (fst (getEntries (Some ?w) 5))" unfolding 4 by simp
  have 6: "fst (GetFields (Some ?w) 5) = [(''a'', AnyString ''true'')]" by code_simp
  have 7: "map_of (fst (GetFields (Some ?w) 5)) ''b'' = None" unfolding 6 by simp
  have 8: "entryLayers (Some ?w) 5 = [[(''b'', AnyString ''true'')]]" by code_simp
  have 9: "overrideAll (entryLayers (Some ?w) 5) ''b'' = Some (AnyString ''true'')"
    unfolding 8 by (simp add: overrideAll_def)
  from 1 2 3 5 6 7 9 show ?thesis by (intro conjI)
qed

section \<open>Properties of the parser of printed stack traces\<close>


lemma reverseLoop_mid:
  "length a = length b \<Longrightarrow>
   reverseLoop (a @ m @ b) (int (length a)) (int (length a + length m) - 1) = a @ rev m @ b"
proof (induction "length m" arbitrary: a m b rule: less_induct)
  case less
  show ?case
  proof (cases "length m < 2")
    case True
    then have "rev m = m" by (cases m) (auto simp: Suc_less_eq)
    with True show ?thesis by (subst reverseLoop.simps) auto
  next
    case False
    then obtain x m1 where m1: "m = x # m1" and "m1 \<noteq> []" by (cases m) auto
    then obtain m' y where m: "m = x # m' @ [y]" by (metis rev_exhaust)
    let ?xs = "a @ m @ b"
    have i: "?xs ! length a = x" using m by (simp add: nth_append)
    have j: "?xs ! (length a + length m - 1) = y" using m by (simp add: nth_append)
    have upd: "?xs[length a := y, length a + length m - 1 := x] = (a @ [y]) @ m' @ (x # b)"
      using m by (simp add: list_update_append)
    have "reverseLoop ?xs (int (length a)) (int (length a + length m) - 1) =
          reverseLoop (?xs[length a := y, length a + length m - 1 := x])
            (int (length a) + 1) (int (length a + length m) - 1 - 1)"
      using m i j by (subst reverseLoop.simps) (simp add: nat_diff_distrib' nat_add_distrib)
    also have "\<dots> = reverseLoop ((a @ [y]) @ m' @ (x # b)) (int (length (a @ [y])))
                       (int (length (a @ [y]) + length m') - 1)"
      using m upd by (simp add: add.commute)
    also have "\<dots> = (a @ [y]) @ rev m' @ (x # b)"
      using less.hyps [of m' "a @ [y]" "x # b"] less.prems m by simp
    finally show ?thesis using m by simp
  qed
qed

lemma reverseLoop_rev: "reverseLoop xs 0 (int (length xs) - 1) = rev xs"
  using reverseLoop_mid [of "[]" "[]" xs] by simp


lemma parsePrintedStackEntry_at:
  assumes "post = [] \<or> \<not> HasPrefix (hd post) [CHR 0x09]"
  shows "parsePrintedStackEntry (pre @ entryLines e @ post) (length pre) =
         (length pre + length (entryLines e) - 1, snd (parsePrintedStackEntry (entryLines e) 0))"
proof (cases e)
  case (Pair fn fl)
  show ?thesis
  proof (cases fl)
    case None
    show ?thesis
    proof (cases post)
      case Nil
      with Pair None show ?thesis by (simp add: parsePrintedStackEntry_def nth_append)
    next
      case (Cons p ps)
      with assms have "\<not> HasPrefix p [CHR 0x09]" by simp
      with Pair None Cons show ?thesis by (simp add: parsePrintedStackEntry_def nth_append)
    qed
  next
    case (Some fileLine)
    have "HasPrefix (CHR 0x09 # fileLine) [CHR 0x09]" by (simp add: HasPrefix_def)
    with Pair Some show ?thesis
      by (simp add: parsePrintedStackEntry_def nth_append Let_def)
  qed
qed

lemma textLines_Cons: "textLines (e # es) = entryLines e @ textLines es"
  by (simp add: textLines_def)

lemma entryLines_length: "0 < length (entryLines e)"
  by (cases e rule: entryLines.cases) auto

lemma textLines_hd: "es \<noteq> [] \<Longrightarrow> hd (textLines es) = fst (hd es)"
  by (cases es; cases "hd es" rule: entryLines.cases) (auto simp: textLines_def)

lemma textLines_empty: "textLines es = [] \<longleftrightarrow> es = []"
  using entryLines_length by (cases es) (auto simp: textLines_def)

lemma parseLoop_textLines:
  "\<forall>e \<in> set es. \<not> HasPrefix (fst e) [CHR 0x09] \<Longrightarrow>
   parseLoop tp (pre @ textLines es) (length pre) acc = acc @ map (entryFrame tp) es"
proof (induction es arbitrary: pre acc)
  case Nil
  show ?case by (subst parseLoop.simps) (simp add: textLines_def)
next
  case (Cons e es)
  let ?lines = "pre @ entryLines e @ textLines es"
  have post: "textLines es = [] \<or> \<not> HasPrefix (hd (textLines es)) [CHR 0x09]"
  proof (cases es)
    case Nil
    then show ?thesis by (simp add: textLines_def)
  next
    case (Cons e' es')
    with Cons.prems textLines_hd [of es] show ?thesis by simp
  qed
  obtain r where r: "snd (parsePrintedStackEntry (entryLines e) 0) = r" by simp
  obtain fl ln fnName where rr: "r = (fl, ln, fnName)" by (cases r)
  have at: "parsePrintedStackEntry ?lines (length pre) =
            (length pre + length (entryLines e) - 1, fl, ln, fnName)"
    using parsePrintedStackEntry_at [OF post, of pre e] r rr by simp
  have frame: "composeFrame tp fl ln fnName = entryFrame tp e"
    using r rr by (cases "parsePrintedStackEntry (entryLines e) 0") (simp add: entryFrame_def)
  have lt: "length pre < length ?lines" using entryLines_length [of e] by simp
  have nxt: "length pre + length (entryLines e) - 1 + 1 = length (pre @ entryLines e)"
    using entryLines_length [of e] by simp
  have "parseLoop tp ?lines (length pre) acc =
        parseLoop tp ?lines (length pre + length (entryLines e) - 1 + 1)
          (acc @ [composeFrame tp fl ln fnName])"
    using lt at by (subst parseLoop.simps) simp
  also have "\<dots> = parseLoop tp ((pre @ entryLines e) @ textLines es)
                       (length (pre @ entryLines e)) (acc @ [entryFrame tp e])"
    unfolding nxt frame by simp
  also have "\<dots> = (acc @ [entryFrame tp e]) @ map (entryFrame tp) es"
    using Cons.IH [of "pre @ entryLines e" "acc @ [entryFrame tp e]"] Cons.prems by simp
  finally show ?case by (simp add: textLines_Cons)
qed

text \<open>
  C9. Let the printed trace, once trimmed and split into lines, be the lines of a
  non-empty sequence of entries, newest first, each a function-name line optionally
  followed by a tab-indented \<open>file:line\<close> line, where no function-name line starts with
  a tab. Then \<open>parsePrintedStack\<close> returns one frame for each entry, in the reverse of
  the order of the text: the first frame is the one built from the last entry parsed.
\<close>

theorem C9_parsePrintedStack_oldest_first:
  assumes "Split (TrimSpace st) ''\<newline>'' = textLines es"
    and "es \<noteq> []"
    and "\<forall>e \<in> set es. \<not> HasPrefix (fst e) [CHR 0x09]"
  shows "\<exists>r. parsePrintedStack trimPaths st = Some r \<and>
             Frames r = rev (map (entryFrame trimPaths) es) \<and>
             hd (Frames r) = entryFrame trimPaths (last es)"
proof -
  have p: "parseLoop trimPaths (textLines es) 0 [] = map (entryFrame trimPaths) es"
    using parseLoop_textLines [OF assms(3), of trimPaths "[]" "[]"] by simp
  have ne: "map (entryFrame trimPaths) es \<noteq> []" using assms(2) by simp
  have "parsePrintedStack trimPaths st =
        Some \<lparr>Frames = rev (map (entryFrame trimPaths) es), FramesOmitted = []\<rparr>"
    using assms(1) p ne reverseLoop_rev [of "map (entryFrame trimPaths) es"]
    by (simp add: parsePrintedStack_def Let_def)
  moreover have "hd (rev (map (entryFrame trimPaths) es)) = entryFrame trimPaths (last es)"
    using assms(2) by (simp add: hd_rev last_map)
  ultimately show ?thesis by simp
qed


theorem C9_parsePrintedStack_oldest_first_witness:
  "\<exists>r. parsePrintedStack []
         (''main.foo\<newline>'' @ [CHR 0x09] @ ''/a/main.go:22\<newline>main.main\<newline>'' @
          [CHR 0x09] @ ''/a/main.go:31\<newline>'') = Some r \<and>
       Frames r =
         [\<lparr>Function = ''main'', Module = ''main'', Filename = ''/a/main.go'',
            AbsPath = ''/a/main.go'', Lineno = 31, InApp = True\<rparr>,
          \<lparr>Function = ''foo'', Module = ''main'', Filename = ''/a/main.go'',
            AbsPath = ''/a/main.go'', Lineno = 22, InApp = True\<rparr>]"
proof -
  let ?st = "''main.foo\<newline>'' @ [CHR 0x09] @ ''/a/main.go:22\<newline>main.main\<newline>'' @
          [CHR 0x09] @ ''/a/main.go:31\<newline>''"
  let ?es = "[(''main.foo'', Some ''/a/main.go:22''), (''main.main'', Some ''/a/main.go:31'')]"
  have 1: "Split (TrimSpace ?st) ''\<newline>'' = textLines ?es" by code_simp
  have 2: "?es \<noteq> []" by simp
  have 3: "\<forall>e \<in> set ?es. \<not> HasPrefix (fst e) [CHR 0x09]" by (simp add: HasPrefix_def)
  have 4: "map (entryFrame []) ?es =
         [\<lparr>Function = ''foo'', Module = ''main'', Filename = ''/a/main.go'',
            AbsPath = ''/a/main.go'', Lineno = 22, InApp = True\<rparr>,
          \<lparr>Function = ''main'', Module = ''main'', Filename = ''/a/main.go'',
            AbsPath = ''/a/main.go'', Lineno = 31, InApp = True\<rparr>]" by code_simp
  from C9_parsePrintedStack_oldest_first [OF 1 2 3, of "[]"]
  obtain r where "parsePrintedStack [] ?st = Some r"
    and "Frames r = rev (map (entryFrame []) ?es)" by blast
  with 4 show ?thesis by simp
qed


end
